theory Spec2Isabelle
  imports Complex_Main
begin

section \<open>IEEE-754 binary32 arithmetic\<close>

text \<open>
  The source computes in the C++ type \<open>float\<close>. A value of that type is a NaN, an
  infinity with a sign, or a finite number \<open>(-1)^s * m * 2^e\<close>. The finite numbers of
  binary32 are those with \<open>0 \<le> m < 2^24\<close> and \<open>-149 \<le> e \<le> 104\<close>; the representation is
  made unique by asking \<open>2^23 \<le> m\<close> (a normal number) unless \<open>e = -149\<close> (a subnormal
  number or a zero). NaN payloads are not distinguished. Every operation rounds its exact
  result once, to nearest with ties to even, as the source's \<open>+\<close>, \<open>*\<close>, \<open>/\<close> and
  \<open>std::sqrt\<close> do when each is evaluated in single precision: no multiplication is
  fused with an addition, no intermediate result is kept in a wider format, and subnormal
  numbers are not flushed to zero.
\<close>

datatype float = NaN | Infty bool | Finite bool int int

text \<open>
  \<open>valid\<close> holds of the terms that stand for a float of the machine. Every operation
  below returns such a term, whatever its operands are.
\<close>

definition valid :: "float \<Rightarrow> bool" where
  "valid x = (case x of
      Finite s m e \<Rightarrow> 0 \<le> m \<and> m < 2 ^ 24 \<and> - 149 \<le> e \<and> e \<le> 104 \<and> (2 ^ 23 \<le> m \<or> e = - 149)
    | _ \<Rightarrow> True)"

definition zero :: float where
  "zero = Finite False 0 (- 149)"

definition one :: float where
  "one = Finite False (2 ^ 23) (- 23)"

function bit_length :: "int \<Rightarrow> nat" where
  "bit_length n = (if n \<le> 0 then 0 else Suc (bit_length (n div 2)))"
  by pat_completeness auto
termination
  by (relation "measure nat") auto

declare bit_length.simps [simp del]

definition round_even :: "int \<Rightarrow> nat \<Rightarrow> int" where
  "round_even M sh =
     (let q = M div 2 ^ sh; r = M mod 2 ^ sh
      in if 2 ^ sh < 2 * r \<or> (2 * r = 2 ^ sh \<and> odd q) then q + 1 else q)"

text \<open>
  Rounding the exact magnitude \<open>M * 2^E\<close>: the exponent of the result is chosen so that
  the mantissa gets 24 bits, but never below \<open>-149\<close> (gradual underflow); the mantissa is
  rounded to that exponent; a mantissa that rounds up to \<open>2^24\<close> moves to the next
  exponent, and an exponent above \<open>104\<close> overflows to infinity.
\<close>

definition round_exponent :: "int \<Rightarrow> int \<Rightarrow> int" where
  "round_exponent M E = max (E + int (bit_length M) - 24) (- 149)"

definition round_mantissa :: "int \<Rightarrow> int \<Rightarrow> int" where
  "round_mantissa M E =
     (let e = round_exponent M E
      in if E \<le> e then round_even M (nat (e - E)) else M * 2 ^ nat (E - e))"

definition pack :: "bool \<Rightarrow> int \<Rightarrow> int \<Rightarrow> float" where
  "pack s m e =
     (if m = 2 ^ 24 then (if 104 < e + 1 then Infty s else Finite s (2 ^ 23) (e + 1))
      else if 104 < e then Infty s
      else Finite s m e)"

definition round_float :: "bool \<Rightarrow> int \<Rightarrow> int \<Rightarrow> float" where
  "round_float s M E =
     (if M \<le> 0 then Finite s 0 (- 149)
      else pack s (round_mantissa M E) (round_exponent M E))"

definition signed :: "bool \<Rightarrow> int \<Rightarrow> int" where
  "signed s m = (if s then - m else m)"

fun fneg :: "float \<Rightarrow> float" where
  "fneg NaN = NaN"
| "fneg (Infty s) = Infty (\<not> s)"
| "fneg (Finite s m e) = Finite (\<not> s) m e"

fun fadd :: "float \<Rightarrow> float \<Rightarrow> float" where
  "fadd NaN y = NaN"
| "fadd x NaN = NaN"
| "fadd (Infty s) (Infty t) = (if s = t then Infty s else NaN)"
| "fadd (Infty s) (Finite t n f) = Infty s"
| "fadd (Finite s m e) (Infty t) = Infty t"
| "fadd (Finite s m e) (Finite t n f) =
     (let g = min e f;
          c = signed s m * 2 ^ nat (e - g) + signed t n * 2 ^ nat (f - g)
      in if c = 0 then Finite (s \<and> t) 0 (- 149)
         else round_float (c < 0) \<bar>c\<bar> g)"

definition fsub :: "float \<Rightarrow> float \<Rightarrow> float" where
  "fsub x y = fadd x (fneg y)"

fun fmul :: "float \<Rightarrow> float \<Rightarrow> float" where
  "fmul NaN y = NaN"
| "fmul x NaN = NaN"
| "fmul (Infty s) (Infty t) = Infty (s \<noteq> t)"
| "fmul (Infty s) (Finite t n f) = (if n = 0 then NaN else Infty (s \<noteq> t))"
| "fmul (Finite s m e) (Infty t) = (if m = 0 then NaN else Infty (s \<noteq> t))"
| "fmul (Finite s m e) (Finite t n f) = round_float (s \<noteq> t) (m * n) (e + f)"

text \<open>
  Division and square root have no finite exact result in general. Both compute the
  result truncated to more than 26 bits and append a sticky bit that records whether
  anything was cut off; rounding that number gives the correctly rounded result.
\<close>

fun fdiv :: "float \<Rightarrow> float \<Rightarrow> float" where
  "fdiv NaN y = NaN"
| "fdiv x NaN = NaN"
| "fdiv (Infty s) (Infty t) = NaN"
| "fdiv (Infty s) (Finite t n f) = Infty (s \<noteq> t)"
| "fdiv (Finite s m e) (Infty t) = Finite (s \<noteq> t) 0 (- 149)"
| "fdiv (Finite s m e) (Finite t n f) =
     (if n = 0 then (if m = 0 then NaN else Infty (s \<noteq> t))
      else
        let q = (m * 2 ^ 50) div n;
            sticky = (if (m * 2 ^ 50) mod n = 0 then 0 else 1)
        in round_float (s \<noteq> t) (2 * q + sticky) (e - f - 51))"

primrec sqrt_bits :: "nat \<Rightarrow> int \<Rightarrow> int \<Rightarrow> int" where
  "sqrt_bits 0 n r = r"
| "sqrt_bits (Suc k) n r =
     (let r' = r + 2 ^ k in sqrt_bits k n (if r' * r' \<le> n then r' else r))"

definition isqrt :: "int \<Rightarrow> int" where
  "isqrt n = sqrt_bits 40 n 0"

fun fsqrt :: "float \<Rightarrow> float" where
  "fsqrt NaN = NaN"
| "fsqrt (Infty s) = (if s then NaN else Infty False)"
| "fsqrt (Finite s m e) =
     (if m = 0 then Finite s 0 (- 149)
      else if s then NaN
      else
        let k = (if even e then 52 else 53);
            M = m * 2 ^ k;
            r = isqrt M;
            sticky = (if r * r = M then 0 else 1)
        in round_float False (2 * r + sticky) ((e - int k) div 2 - 1))"

text \<open>The comparisons \<open><\<close> and \<open>==\<close> of the source: false whenever an operand is NaN.\<close>

fun flt :: "float \<Rightarrow> float \<Rightarrow> bool" where
  "flt NaN y = False"
| "flt x NaN = False"
| "flt (Infty s) (Infty t) = (s \<and> \<not> t)"
| "flt (Infty s) (Finite t n f) = s"
| "flt (Finite s m e) (Infty t) = (\<not> t)"
| "flt (Finite s m e) (Finite t n f) =
     (let g = min e f
      in signed s m * 2 ^ nat (e - g) < signed t n * 2 ^ nat (f - g))"

fun feq :: "float \<Rightarrow> float \<Rightarrow> bool" where
  "feq NaN y = False"
| "feq x NaN = False"
| "feq (Infty s) (Infty t) = (s = t)"
| "feq (Infty s) (Finite t n f) = False"
| "feq (Finite s m e) (Infty t) = False"
| "feq (Finite s m e) (Finite t n f) =
     (let g = min e f
      in signed s m * 2 ^ nat (e - g) = signed t n * 2 ^ nat (f - g))"

fun fle :: "float \<Rightarrow> float \<Rightarrow> bool" where
  "fle NaN y = False"
| "fle x NaN = False"
| "fle (Infty s) (Infty t) = (s \<or> \<not> t)"
| "fle (Infty s) (Finite t n f) = s"
| "fle (Finite s m e) (Infty t) = (\<not> t)"
| "fle (Finite s m e) (Finite t n f) =
     (let g = min e f
      in signed s m * 2 ^ nat (e - g) \<le> signed t n * 2 ^ nat (f - g))"

text \<open>\<open>std::min(a, b)\<close> is \<open>(b < a) ? b : a\<close>.\<close>

definition std_min :: "float \<Rightarrow> float \<Rightarrow> float" where
  "std_min a b = (if flt b a then b else a)"

section \<open>The three functions of \<open>tensor_ops.cpp\<close>\<close>

text \<open>
  A vector is the list of the floats the caller's buffer holds. Reading index \<open>i\<close>
  outside the buffer is undefined behaviour in the source; the model returns \<open>None\<close>.
  The lengths and the loop counters are \<open>int\<close>s of the source; a counter runs from \<open>0\<close>
  up to the length at most and never overflows, so unbounded integers model them. Each
  \<open>for\<close> loop is a recursive function on the counter and the running values.
\<close>

definition rd :: "float list \<Rightarrow> int \<Rightarrow> float option" where
  "rd v i = (if 0 \<le> i \<and> i < int (length v) then Some (v ! nat i) else None)"

function cosine_loop ::
  "float list \<Rightarrow> float list \<Rightarrow> int \<Rightarrow> int \<Rightarrow> float \<times> float \<times> float \<Rightarrow> (float \<times> float \<times> float) option" where
  "cosine_loop v1 v2 sz i (dot, norm_v1, norm_v2) =
     (if i < sz then
        (case (rd v1 i, rd v2 i) of
           (Some a, Some b) \<Rightarrow>
             cosine_loop v1 v2 sz (i + 1)
               (fadd dot (fmul a b), fadd norm_v1 (fmul a a), fadd norm_v2 (fmul b b))
         | _ \<Rightarrow> None)
      else Some (dot, norm_v1, norm_v2))"
  by pat_completeness auto
termination
  by (relation "measure (\<lambda>(v1, v2, sz, i, acc). nat (sz - i))") auto

declare cosine_loop.simps [simp del]

definition cosine_similarity :: "float list \<Rightarrow> float list \<Rightarrow> int \<Rightarrow> float option" where
  "cosine_similarity v1 v2 sz =
     (case cosine_loop v1 v2 sz 0 (zero, zero, zero) of
        None \<Rightarrow> None
      | Some (dot, norm_v1, norm_v2) \<Rightarrow>
          if feq norm_v1 zero \<or> feq norm_v2 zero then Some zero
          else Some (fdiv dot (fmul (fsqrt norm_v1) (fsqrt norm_v2))))"

definition calculate_influence_tensor ::
  "float list \<Rightarrow> float list \<Rightarrow> int \<Rightarrow> float \<Rightarrow> float option" where
  "calculate_influence_tensor firm_tensor node_tensor sz centrality =
     (case cosine_similarity firm_tensor node_tensor sz of
        None \<Rightarrow> None
      | Some sim \<Rightarrow> Some (fmul sim centrality))"

function parent_loop :: "float list \<Rightarrow> int \<Rightarrow> int \<Rightarrow> float \<Rightarrow> float option" where
  "parent_loop parent_probs num_parents i parent_p_success =
     (if i < num_parents then
        (case rd parent_probs i of
           Some p \<Rightarrow> parent_loop parent_probs num_parents (i + 1) (fmul parent_p_success p)
         | None \<Rightarrow> None)
      else Some parent_p_success)"
  by pat_completeness auto
termination
  by (relation "measure (\<lambda>(ps, n, i, acc). nat (n - i))") auto

declare parent_loop.simps [simp del]

definition local_p_success :: "float \<Rightarrow> float \<Rightarrow> float" where
  "local_p_success local_failure_prob multiplier =
     fsub one (std_min one (fmul local_failure_prob multiplier))"

definition propagate_risk :: "float \<Rightarrow> float \<Rightarrow> float list \<Rightarrow> int \<Rightarrow> float option" where
  "propagate_risk local_failure_prob multiplier parent_probs num_parents =
     (case parent_loop parent_probs num_parents 0 one of
        None \<Rightarrow> None
      | Some parent_p_success \<Rightarrow>
          Some (fmul (local_p_success local_failure_prob multiplier) parent_p_success))"

section \<open>The quantities the specification names\<close>

text \<open>
  The specification speaks of the dot product, the squared norm, the Euclidean norm and
  the product of the parent probabilities. Each is written here on its own, as one pass
  over one list, in the arithmetic of the source and in index order, to be compared with
  the loops above.
\<close>

definition dot_step :: "float \<Rightarrow> float \<times> float \<Rightarrow> float" where
  "dot_step acc ab = fadd acc (fmul (fst ab) (snd ab))"

definition sq_step :: "float \<Rightarrow> float \<Rightarrow> float" where
  "sq_step acc a = fadd acc (fmul a a)"

definition dot_product :: "float list \<Rightarrow> float list \<Rightarrow> float" where
  "dot_product v1 v2 = foldl dot_step zero (zip v1 v2)"

definition squared_norm :: "float list \<Rightarrow> float" where
  "squared_norm v = foldl sq_step zero v"

definition euclidean_norm :: "float list \<Rightarrow> float" where
  "euclidean_norm v = fsqrt (squared_norm v)"

definition product :: "float list \<Rightarrow> float" where
  "product ps = foldl fmul one ps"

text \<open>A float is zero when it compares equal to \<open>0.0\<close>: it is \<open>+0\<close> or \<open>-0\<close>.\<close>

definition is_zero :: "float \<Rightarrow> bool" where
  "is_zero x = feq x zero"

definition is_finite :: "float \<Rightarrow> bool" where
  "is_finite x = (case x of Finite s m e \<Rightarrow> True | _ \<Rightarrow> False)"

section \<open>An order embedding of the floats\<close>

text \<open>
  Every finite binary32 number is a whole multiple of \<open>2^-149\<close>. \<open>ord\<close> maps a float to
  that multiple, and the infinities to \<open>\<plusminus> 2^277\<close>, beyond every finite float (the largest
  is below \<open>2^128 = 2^277 * 2^-149\<close>). On canonical floats other than NaN the comparisons
  of the source agree with the order of the integers.
\<close>

definition ord :: "float \<Rightarrow> int" where
  "ord x = (case x of
      NaN \<Rightarrow> 0
    | Infty s \<Rightarrow> signed s (2 ^ 277)
    | Finite s m e \<Rightarrow> signed s (m * 2 ^ nat (e + 149)))"

definition rounded_units :: "int \<Rightarrow> int \<Rightarrow> int" where
  "rounded_units M E = round_mantissa M E * 2 ^ nat (round_exponent M E + 149)"

text \<open>A float is non-negative when it is canonical and \<open>0 <= x\<close> holds in the source.\<close>

definition nonneg :: "float \<Rightarrow> bool" where
  "nonneg x = (valid x \<and> fle zero x)"

text \<open>
  Two results are related when the first is not above the second, or one of them is NaN
  (so that no comparison of the source tells them apart).
\<close>

definition related :: "float \<Rightarrow> float \<Rightarrow> bool" where
  "related u v = (valid u \<and> valid v \<and> (u = NaN \<or> v = NaN \<or> (0 \<le> ord u \<and> ord u \<le> ord v)))"

section \<open>Quantities for the error analysis\<close>

text \<open>
  The exact value \<open>M * 2^E\<close> in units of \<open>2^-149\<close>, as a real number; the sign bit of a
  float; what \<open>cosine_similarity\<close> computes from the squared norm \<open>s\<close> when both vectors
  are the same; and the floats between \<open>1 - 2^-20\<close> and \<open>1 + 2^-20\<close>.
\<close>

definition exact_units :: "int \<Rightarrow> int \<Rightarrow> real" where
  "exact_units M E = real_of_int M * 2 powr real_of_int (E + 149)"

definition sign_positive :: "float \<Rightarrow> bool" where
  "sign_positive x = (case x of NaN \<Rightarrow> True | Infty s \<Rightarrow> \<not> s | Finite s m e \<Rightarrow> \<not> s)"

definition near_one :: "float \<Rightarrow> bool" where
  "near_one r = (fle (Finite False (2 ^ 24 - 16) (- 24)) r \<and> fle r (Finite False (2 ^ 23 + 8) (- 23)))"

definition self_similarity :: "float \<Rightarrow> float" where
  "self_similarity s = fdiv s (fmul (fsqrt s) (fsqrt s))"

section \<open>Bit lengths\<close>

text \<open>
  \<open>bit_length n\<close> is the number of binary digits of a positive \<open>n\<close>:
  \<open>2^(bit_length n - 1) \<le> n < 2^(bit_length n)\<close>.
\<close>

lemma bit_length_nonpos: "n \<le> 0 \<Longrightarrow> bit_length n = 0"
  by (simp add: bit_length.simps)

lemma bit_length_rec: "0 < n \<Longrightarrow> bit_length n = Suc (bit_length (n div 2))"
  by (subst bit_length.simps) simp

lemma bit_length_bounds:
  "0 < n \<Longrightarrow> 2 ^ (bit_length n - 1) \<le> n \<and> n < 2 ^ bit_length n"
proof (induction n rule: bit_length.induct)
  case (1 n)
  show ?case
  proof (cases "n = 1")
    case True
    then show ?thesis by (simp add: bit_length_rec bit_length_nonpos)
  next
    case False
    with "1.prems" have h: "0 < n div 2" by simp
    have ih: "2 ^ (bit_length (n div 2) - 1) \<le> n div 2 \<and> n div 2 < 2 ^ bit_length (n div 2)"
      using "1.IH" h "1.prems" by simp
    have pos: "0 < bit_length (n div 2)"
      using h by (simp add: bit_length_rec)
    then obtain j where j: "bit_length (n div 2) = Suc j" by (cases "bit_length (n div 2)") auto
    have "2 ^ j \<le> n div 2" "n div 2 < 2 * 2 ^ j" using ih j by simp_all
    then have "2 * 2 ^ j \<le> n" "n < 2 * (2 * 2 ^ j)" by linarith+
    then show ?thesis using "1.prems" j by (simp add: bit_length_rec)
  qed
qed

lemma bit_length_unique:
  "2 ^ k \<le> n \<Longrightarrow> n < 2 ^ Suc k \<Longrightarrow> bit_length n = Suc k"
proof (induction k arbitrary: n)
  case 0
  then have "n = 1" by simp
  then show ?case by (simp add: bit_length_rec bit_length_nonpos)
next
  case (Suc k)
  have "0 < n" using Suc.prems(1) by (smt (verit) zero_less_power)
  moreover have "2 ^ k \<le> n div 2" "n div 2 < 2 ^ Suc k" using Suc.prems by simp_all
  ultimately show ?case using Suc.IH [of "n div 2"] by (simp add: bit_length_rec)
qed

lemma bit_length_pos: "0 < n \<Longrightarrow> 0 < bit_length n"
  by (simp add: bit_length_rec)

lemma bit_length_shift: "0 < n \<Longrightarrow> bit_length (n * 2 ^ k) = bit_length n + k"
proof -
  assume n: "0 < n"
  obtain j where j: "bit_length n = Suc j"
    using bit_length_pos [OF n] by (cases "bit_length n") auto
  have "2 ^ j \<le> n" "n < 2 ^ Suc j" using bit_length_bounds [OF n] j by simp_all
  then have "2 ^ j * 2 ^ k \<le> n * 2 ^ k" "n * 2 ^ k < 2 ^ Suc j * 2 ^ k"
    by simp_all
  then have "2 ^ (j + k) \<le> n * 2 ^ k" "n * 2 ^ k < 2 ^ Suc (j + k)"
    by (simp_all add: power_add)
  then have "bit_length (n * 2 ^ k) = Suc (j + k)" by (rule bit_length_unique)
  then show ?thesis using j by simp
qed

lemma bit_length_mono: "a \<le> b \<Longrightarrow> bit_length a \<le> bit_length b"
proof (cases "0 < a")
  case False
  then show ?thesis by (simp add: bit_length_nonpos)
next
  case True
  assume ab: "a \<le> b"
  then have b: "0 < b" using True by simp
  have "2 ^ (bit_length a - 1) \<le> a" using bit_length_bounds [OF True] by simp
  also have "a \<le> b" by fact
  also have "b < 2 ^ bit_length b" using bit_length_bounds [OF b] by simp
  finally have "(2::int) ^ (bit_length a - 1) < 2 ^ bit_length b" .
  then have "bit_length a - 1 < bit_length b" by simp
  then show ?thesis by simp
qed

lemma bit_length_less: "0 \<le> n \<Longrightarrow> n < 2 ^ k \<Longrightarrow> bit_length n \<le> k"
proof (cases "n = 0")
  case True
  then show ?thesis by (simp add: bit_length_nonpos)
next
  case False
  assume "0 \<le> n" "n < 2 ^ k"
  with False have n: "0 < n" by simp
  have "(2::int) ^ (bit_length n - 1) \<le> n" using bit_length_bounds [OF n] by simp
  also have "n < 2 ^ k" by fact
  finally have "bit_length n - 1 < k" by simp
  then show ?thesis by simp
qed

section \<open>Rounding\<close>

text \<open>
  Rounding to even is monotone and exact on multiples; \<open>round_float\<close> returns a canonical
  float, leaves a canonical float unchanged, and depends only on the value \<open>M * 2^E\<close>,
  not on how it is split into \<open>M\<close> and \<open>E\<close>. Multiplying by \<open>1.0\<close> is therefore the
  identity, and \<open>1 - x\<close> is never negative for \<open>x \<le> 1\<close>.
\<close>

lemma round_even_exact: "round_even (m * 2 ^ sh) sh = m"
  by (simp add: round_even_def)

lemma round_even_bounds:
  "M div 2 ^ sh \<le> round_even M sh \<and> round_even M sh \<le> M div 2 ^ sh + 1"
  by (simp add: round_even_def Let_def)

lemma div_lower: "0 < d \<Longrightarrow> b * d \<le> a \<Longrightarrow> b \<le> a div (d::int)"
  using zdiv_mono1 [of "b * d" a d] by simp

lemma div_upper: "0 < d \<Longrightarrow> a < b * d \<Longrightarrow> a div (d::int) < b"
proof (rule ccontr)
  assume d: "0 < d" and a: "a < b * d" and n: "\<not> a div d < b"
  have "a = d * (a div d) + a mod d" by simp
  moreover have "0 \<le> a mod d" using d by simp
  ultimately have "d * (a div d) \<le> a" by linarith
  moreover have "b * d \<le> (a div d) * d" using n d by simp
  ultimately show False using a by (simp add: mult.commute)
qed

lemma round_even_nonneg: "0 \<le> M \<Longrightarrow> 0 \<le> round_even M sh"
proof -
  assume "0 \<le> M"
  then have "0 \<le> M div 2 ^ sh" by (simp add: pos_imp_zdiv_nonneg_iff)
  then show ?thesis using round_even_bounds [of M sh] by linarith
qed

lemma round_even_upper: "M < 2 ^ (sh + k) \<Longrightarrow> round_even M sh \<le> 2 ^ k"
proof -
  assume "M < 2 ^ (sh + k)"
  then have "M < 2 ^ k * 2 ^ sh" by (simp add: power_add mult.commute)
  then have "M div 2 ^ sh < 2 ^ k" by (simp add: div_upper)
  then show ?thesis using round_even_bounds [of M sh] by linarith
qed

lemma round_even_lower: "2 ^ (sh + k) \<le> M \<Longrightarrow> 2 ^ k \<le> round_even M sh"
proof -
  assume "2 ^ (sh + k) \<le> M"
  then have "2 ^ k * 2 ^ sh \<le> M" by (simp add: power_add mult.commute)
  then have "2 ^ k \<le> M div 2 ^ sh" by (simp add: div_lower)
  then show ?thesis using round_even_bounds [of M sh] by linarith
qed

lemma round_even_mono:
  assumes "M1 \<le> M2"
  shows "round_even M1 sh \<le> round_even M2 sh"
proof -
  let ?d = "(2::int) ^ sh"
  have d: "0 < ?d" by simp
  have q: "M1 div ?d \<le> M2 div ?d" using assms d by (rule zdiv_mono1)
  show ?thesis
  proof (cases "M1 div ?d = M2 div ?d")
    case False
    then have "M1 div ?d + 1 \<le> M2 div ?d" using q by simp
    then show ?thesis
      using round_even_bounds [of M1 sh] round_even_bounds [of M2 sh] by linarith
  next
    case True
    have "M1 = ?d * (M1 div ?d) + M1 mod ?d" "M2 = ?d * (M2 div ?d) + M2 mod ?d"
      by simp_all
    then have "M1 mod ?d \<le> M2 mod ?d" using assms True by (metis add_le_cancel_left)
    then show ?thesis using True by (auto simp: round_even_def Let_def)
  qed
qed

lemma round_even_scale: "round_even (M * 2 ^ k) (sh + k) = round_even M sh"
proof -
  have a: "(M * 2 ^ k) div 2 ^ (sh + k) = M div 2 ^ sh"
    by (simp add: power_add)
  have b: "(M * 2 ^ k) mod 2 ^ (sh + k) = (M mod 2 ^ sh) * 2 ^ k"
    by (simp add: power_add)
  have c: "((2::int) ^ (sh + k) < 2 * ((M mod 2 ^ sh) * 2 ^ k)) = (2 ^ sh < 2 * (M mod 2 ^ sh))"
  proof -
    have "((2::int) ^ sh * 2 ^ k < (2 * (M mod 2 ^ sh)) * 2 ^ k) = (2 ^ sh < 2 * (M mod 2 ^ sh))"
      by (rule mult_less_cancel_right_pos) simp
    then show ?thesis by (simp add: power_add mult.assoc)
  qed
  have e: "(2 * ((M mod 2 ^ sh) * 2 ^ k) = (2::int) ^ (sh + k)) = (2 * (M mod 2 ^ sh) = 2 ^ sh)"
  proof -
    have "((2 * (M mod 2 ^ sh)) * 2 ^ k = (2::int) ^ sh * 2 ^ k) = (2 * (M mod 2 ^ sh) = 2 ^ sh)"
      by simp
    then show ?thesis by (simp add: power_add mult.assoc)
  qed
  show ?thesis
    unfolding round_even_def Let_def a b c e ..
qed

lemma round_exponent_ge: "- 149 \<le> round_exponent M E"
  by (simp add: round_exponent_def)

lemma round_parts:
  assumes M: "0 < M"
  shows "0 \<le> round_mantissa M E \<and> round_mantissa M E \<le> 2 ^ 24
       \<and> (round_exponent M E = - 149 \<or> 2 ^ 23 \<le> round_mantissa M E)"
proof -
  define b where "b = bit_length M"
  have bpos: "0 < b" using M by (simp add: b_def bit_length_pos)
  have lo: "2 ^ (b - 1) \<le> M" and hi: "M < 2 ^ b"
    using bit_length_bounds [OF M] by (simp_all add: b_def)
  show ?thesis
  proof (cases "- 149 \<le> E + int b - 24")
    case True
    then have e: "round_exponent M E = E + int b - 24"
      by (simp add: round_exponent_def b_def)
    show ?thesis
    proof (cases "24 \<le> b")
      case True
      define sh where "sh = b - 24"
      have m: "round_mantissa M E = round_even M sh"
        using True by (simp add: round_mantissa_def e sh_def Let_def nat_diff_distrib)
      have "sh + 24 = b" "sh + 23 = b - 1" using True by (simp_all add: sh_def)
      then have u: "M < 2 ^ (sh + 24)" and l: "2 ^ (sh + 23) \<le> M" using lo hi by simp_all
      have "round_even M sh \<le> 2 ^ 24" using u by (rule round_even_upper)
      moreover have "2 ^ 23 \<le> round_even M sh" using l by (rule round_even_lower)
      ultimately show ?thesis using m by simp
    next
      case False
      define k where "k = 24 - b"
      have m: "round_mantissa M E = M * 2 ^ k"
      proof -
        have "nat (24 - int b) = 24 - b" by simp
        then show ?thesis using False by (simp add: round_mantissa_def e k_def Let_def)
      qed
      have "(b - 1) + k = 23" "b + k = 24" using False bpos by (simp_all add: k_def)
      then have p: "(2::int) ^ (b - 1) * 2 ^ k = 2 ^ 23" "(2::int) ^ b * 2 ^ k = 2 ^ 24"
        by (simp_all flip: power_add)
      from lo have "2 ^ (b - 1) * 2 ^ k \<le> M * 2 ^ k" by (rule mult_right_mono) simp
      then have l: "2 ^ 23 \<le> M * 2 ^ k" unfolding p(1) .
      from hi have "M * 2 ^ k < 2 ^ b * 2 ^ k" by (rule mult_strict_right_mono) simp
      then have u: "M * 2 ^ k < 2 ^ 24" unfolding p(2) .
      show ?thesis using m l u by simp
    qed
  next
    case False
    then have e: "round_exponent M E = - 149"
      by (simp add: round_exponent_def b_def)
    show ?thesis
    proof (cases "E \<le> - 149")
      case True
      define sh where "sh = nat (- 149 - E)"
      have m: "round_mantissa M E = round_even M sh"
        using True by (simp add: round_mantissa_def e sh_def Let_def)
      have "b \<le> sh + 24" using False True by (simp add: sh_def)
      then have "(2::int) ^ b \<le> 2 ^ (sh + 24)" by (rule power_increasing) simp
      then have "M < 2 ^ (sh + 24)" using hi by linarith
      then have "round_even M sh \<le> 2 ^ 24" by (rule round_even_upper)
      moreover have "0 \<le> round_even M sh" using M by (simp add: round_even_nonneg)
      ultimately show ?thesis using m e by simp
    next
      case F: False
      define k where "k = nat (E + 149)"
      have m: "round_mantissa M E = M * 2 ^ k"
        using F by (simp add: round_mantissa_def e k_def Let_def)
      have "b + k \<le> 24" using False F by (simp add: k_def)
      then have "(2::int) ^ (b + k) \<le> 2 ^ 24" by (rule power_increasing) simp
      then have "(2::int) ^ b * 2 ^ k \<le> 2 ^ 24" unfolding power_add .
      moreover from hi have "M * 2 ^ k < 2 ^ b * 2 ^ k" by (rule mult_strict_right_mono) simp
      ultimately have "M * 2 ^ k < 2 ^ 24" by (rule less_le_trans [rotated])
      moreover have "0 \<le> M * 2 ^ k" using M by simp
      ultimately show ?thesis using m e by simp
    qed
  qed
qed

lemma valid_pack:
  "0 \<le> m \<Longrightarrow> m \<le> 2 ^ 24 \<Longrightarrow> - 149 \<le> e \<Longrightarrow> e = - 149 \<or> 2 ^ 23 \<le> m \<Longrightarrow> valid (pack s m e)"
  by (auto simp: pack_def valid_def)

lemma valid_round_float: "valid (round_float s M E)"
proof (cases "M \<le> 0")
  case True
  then show ?thesis by (simp add: round_float_def valid_def)
next
  case False
  then have M: "0 < M" by simp
  show ?thesis
    using round_parts [OF M, of E] round_exponent_ge [of M E] M
    by (simp add: round_float_def valid_pack)
qed

lemma round_float_canonical:
  assumes "valid (Finite s m e)"
  shows "round_float s m e = Finite s m e"
proof (cases "m = 0")
  case True
  then show ?thesis using assms by (simp add: round_float_def valid_def)
next
  case False
  then have m: "0 < m" "m < 2 ^ 24" and e: "- 149 \<le> e" "e \<le> 104"
    and n: "2 ^ 23 \<le> m \<or> e = - 149"
    using assms by (simp_all add: valid_def)
  have bl: "bit_length m \<le> 24" using m by (simp add: bit_length_less)
  have "round_exponent m e = e \<and> round_mantissa m e = m"
  proof (cases "2 ^ 23 \<le> m")
    case True
    then have "bit_length m = Suc 23" using m by (intro bit_length_unique) simp_all
    then have "round_exponent m e = e" using e by (simp add: round_exponent_def)
    then show ?thesis by (simp add: round_mantissa_def round_even_def)
  next
    case False
    then have "e = - 149" using n by simp
    moreover from this have "round_exponent m e = e" using bl by (simp add: round_exponent_def)
    ultimately show ?thesis by (simp add: round_mantissa_def round_even_def)
  qed
  then show ?thesis using m e by (simp add: round_float_def pack_def)
qed

lemma round_exponent_scale:
  "0 < M \<Longrightarrow> round_exponent (M * 2 ^ k) (E - int k) = round_exponent M E"
  by (simp add: round_exponent_def bit_length_shift)

lemma round_mantissa_scale:
  assumes M: "0 < M"
  shows "round_mantissa (M * 2 ^ k) (E - int k) = round_mantissa M E"
proof -
  define e where "e = round_exponent M E"
  have e': "round_exponent (M * 2 ^ k) (E - int k) = e"
    using M by (simp add: e_def round_exponent_scale)
  show ?thesis
  proof (cases "E \<le> e")
    case True
    have "nat (e - (E - int k)) = nat (e - E) + k" using True by simp
    then show ?thesis using True
      by (simp add: round_mantissa_def e' e_def [symmetric] Let_def round_even_scale)
  next
    case False
    show ?thesis
    proof (cases "E - int k \<le> e")
      case True
      define j where "j = nat (e - (E - int k))"
      define i where "i = nat (E - e)"
      have k: "k = i + j" using True False by (simp add: i_def j_def)
      have "round_even (M * 2 ^ k) j = M * 2 ^ i"
        using round_even_exact [of "M * 2 ^ i" j] by (simp add: k power_add mult.assoc)
      then show ?thesis using True False
        by (simp add: round_mantissa_def e' e_def [symmetric] Let_def i_def j_def)
    next
      case F: False
      have "nat (E - e) = k + nat (E - int k - e)" using F by simp
      then have "(2::int) ^ nat (E - e) = 2 ^ k * 2 ^ nat (E - int k - e)"
        by (simp add: power_add)
      then show ?thesis using False F
        by (simp add: round_mantissa_def e' e_def [symmetric] Let_def mult.assoc)
    qed
  qed
qed

lemma round_float_scale:
  assumes "0 < M"
  shows "round_float s (M * 2 ^ k) (E - int k) = round_float s M E"
proof -
  have n1: "\<not> M * 2 ^ k \<le> 0" using assms by (simp add: mult_le_0_iff)
  have n2: "\<not> M \<le> 0" using assms by simp
  show ?thesis
    unfolding round_float_def if_not_P [OF n1] if_not_P [OF n2]
      round_exponent_scale [OF assms] round_mantissa_scale [OF assms] ..
qed

lemma fmul_one:
  assumes "valid x"
  shows "fmul x one = x"
proof (cases x)
  case (Finite s m e)
  show ?thesis
  proof (cases "m = 0")
    case True
    then show ?thesis using assms Finite
      by (simp add: one_def round_float_def valid_def)
  next
    case False
    then have m: "0 < m" using assms Finite by (simp add: valid_def)
    have "fmul x one = round_float s (m * 2 ^ 23) (e - int 23)"
      by (simp add: Finite one_def)
    also have "\<dots> = round_float s m e" using m by (rule round_float_scale)
    also have "\<dots> = x" using assms Finite by (simp add: round_float_canonical)
    finally show ?thesis .
  qed
qed (simp_all add: one_def)

lemma valid_fmul: "valid (fmul x y)"
  by (cases x; cases y) (simp_all add: valid_round_float, simp_all add: valid_def)

lemma valid_fadd: "valid (fadd x y)"
  by (cases x; cases y) (simp_all add: valid_round_float Let_def, simp_all add: valid_def)

lemma valid_one: "valid one"
  by (simp add: valid_def one_def)

lemma fle_zero_round: "fle zero (round_float False M E)"
proof (cases "M \<le> 0")
  case True
  then show ?thesis by (simp add: round_float_def zero_def signed_def)
next
  case False
  then have M: "0 < M" by simp
  have "0 \<le> round_mantissa M E" using round_parts [OF M] by simp
  then show ?thesis using M
    by (simp add: round_float_def pack_def zero_def signed_def)
qed

lemma flt_asym: "flt x y \<Longrightarrow> \<not> flt y x"
  by (cases x; cases y) (auto simp: Let_def min.commute)

lemma flt_irrefl: "\<not> flt x x"
  by (cases x) auto

lemma std_min_one: "std_min one x \<noteq> NaN \<and> \<not> flt one (std_min one x)"
proof (cases "flt x one")
  case True
  then have "x \<noteq> NaN" by (cases x) auto
  then show ?thesis using True flt_asym [OF True] by (simp add: std_min_def)
next
  case False
  then show ?thesis by (simp add: std_min_def flt_irrefl) (simp add: one_def)
qed

lemma fle_zero_one_minus:
  assumes "y \<noteq> NaN" "\<not> flt one y"
  shows "fle zero (fsub one y)"
proof (cases y)
  case NaN
  then show ?thesis using assms by simp
next
  case (Infty t)
  then show ?thesis using assms by (simp add: fsub_def one_def zero_def)
next
  case (Finite t n f)
  define g where "g = min (- 23) f"
  define c where "c = signed False (2 ^ 23) * 2 ^ nat (- 23 - g) + signed (\<not> t) n * 2 ^ nat (f - g)"
  have "signed (\<not> t) n = - signed t n" by (simp add: signed_def)
  moreover have "\<not> signed False (2 ^ 23) * 2 ^ nat (- 23 - g) < signed t n * 2 ^ nat (f - g)"
    using assms(2) Finite by (simp add: one_def g_def Let_def)
  ultimately have c: "0 \<le> c" by (simp add: c_def)
  have "fsub one y = (if c = 0 then Finite False 0 (- 149) else round_float (c < 0) \<bar>c\<bar> g)"
    by (simp add: fsub_def Finite one_def c_def g_def Let_def)
  then show ?thesis using c fle_zero_round [of "\<bar>c\<bar>" g]
    by (auto simp: zero_def signed_def)
qed

lemma local_p_success_nonneg: "fle zero (local_p_success f m)"
  unfolding local_p_success_def using std_min_one by (intro fle_zero_one_minus) auto

section \<open>The loops as folds\<close>

text \<open>
  With buffers that hold at least as many elements as the length says, each loop of the
  source returns what a left fold over the first elements returns.
\<close>

lemma rd_in_range: "0 \<le> i \<Longrightarrow> i < int (length v) \<Longrightarrow> rd v i = Some (v ! nat i)"
  by (simp add: rd_def)

lemma drop_take_step:
  assumes "0 \<le> i" "i < sz" "sz \<le> int (length v)"
  shows "drop (nat i) (take (nat sz) v) = v ! nat i # drop (nat (i + 1)) (take (nat sz) v)"
proof -
  have "nat i < length (take (nat sz) v)" using assms by simp
  then have "drop (nat i) (take (nat sz) v) =
      take (nat sz) v ! nat i # drop (Suc (nat i)) (take (nat sz) v)"
    by (rule Cons_nth_drop_Suc [symmetric])
  moreover have "take (nat sz) v ! nat i = v ! nat i" using assms by simp
  moreover have "Suc (nat i) = nat (i + 1)" using assms by simp
  ultimately show ?thesis by simp
qed

lemma cosine_loop_folds:
  "0 \<le> i \<Longrightarrow> sz \<le> int (length v1) \<Longrightarrow> sz \<le> int (length v2) \<Longrightarrow>
   cosine_loop v1 v2 sz i (d, a, b) =
     Some (foldl dot_step d (drop (nat i) (take (nat sz) (zip v1 v2))),
           foldl sq_step a (drop (nat i) (take (nat sz) v1)),
           foldl sq_step b (drop (nat i) (take (nat sz) v2)))"
proof (induction v1 v2 sz i "(d, a, b)" arbitrary: d a b rule: cosine_loop.induct)
  case (1 v1 v2 sz i d a b)
  show ?case
  proof (cases "i < sz")
    case True
    have r1: "rd v1 i = Some (v1 ! nat i)" and r2: "rd v2 i = Some (v2 ! nat i)"
      using True "1.prems" by (simp_all add: rd_in_range)
    have z: "sz \<le> int (length (zip v1 v2))" using "1.prems" by simp
    have s1: "drop (nat i) (take (nat sz) v1) = v1 ! nat i # drop (nat (i + 1)) (take (nat sz) v1)"
      using True "1.prems" by (simp add: drop_take_step)
    have s2: "drop (nat i) (take (nat sz) v2) = v2 ! nat i # drop (nat (i + 1)) (take (nat sz) v2)"
      using True "1.prems" by (simp add: drop_take_step)
    have s3: "drop (nat i) (take (nat sz) (zip v1 v2)) =
        (v1 ! nat i, v2 ! nat i) # drop (nat (i + 1)) (take (nat sz) (zip v1 v2))"
    proof -
      have "zip v1 v2 ! nat i = (v1 ! nat i, v2 ! nat i)" using True "1.prems" by simp
      then show ?thesis using drop_take_step [OF "1.prems"(1) True z] by simp
    qed
    have ih: "cosine_loop v1 v2 sz (i + 1)
        (fadd d (fmul (v1 ! nat i) (v2 ! nat i)), fadd a (fmul (v1 ! nat i) (v1 ! nat i)),
         fadd b (fmul (v2 ! nat i) (v2 ! nat i))) =
      Some (foldl dot_step (fadd d (fmul (v1 ! nat i) (v2 ! nat i)))
              (drop (nat (i + 1)) (take (nat sz) (zip v1 v2))),
            foldl sq_step (fadd a (fmul (v1 ! nat i) (v1 ! nat i)))
              (drop (nat (i + 1)) (take (nat sz) v1)),
            foldl sq_step (fadd b (fmul (v2 ! nat i) (v2 ! nat i)))
              (drop (nat (i + 1)) (take (nat sz) v2)))"
      using "1.hyps" [OF True refl r1 r2] "1.prems" by simp
    show ?thesis
      using True r1 r2 ih
      by (simp add: cosine_loop.simps [of v1 v2 sz i] s1 s2 s3 dot_step_def sq_step_def)
  next
    case False
    then have "nat sz \<le> nat i" using "1.prems" by simp
    then show ?thesis using False
      by (simp add: cosine_loop.simps [of v1 v2 sz i])
  qed
qed

lemma cosine_loop_prefix:
  assumes "sz \<le> int (length v1)" "sz \<le> int (length v2)"
  shows "cosine_loop v1 v2 sz 0 (zero, zero, zero) =
     Some (dot_product (take (nat sz) v1) (take (nat sz) v2),
           squared_norm (take (nat sz) v1), squared_norm (take (nat sz) v2))"
  using cosine_loop_folds [of 0 sz v1 v2 zero zero zero] assms
  by (simp add: dot_product_def squared_norm_def take_zip)

lemma cosine_similarity_prefix:
  assumes "sz \<le> int (length v1)" "sz \<le> int (length v2)"
  shows "cosine_similarity v1 v2 sz =
     Some (if feq (squared_norm (take (nat sz) v1)) zero \<or> feq (squared_norm (take (nat sz) v2)) zero
           then zero
           else fdiv (dot_product (take (nat sz) v1) (take (nat sz) v2))
                  (fmul (euclidean_norm (take (nat sz) v1)) (euclidean_norm (take (nat sz) v2))))"
  using cosine_loop_prefix [OF assms]
  by (simp add: cosine_similarity_def euclidean_norm_def)

lemma parent_loop_folds:
  "0 \<le> i \<Longrightarrow> n \<le> int (length ps) \<Longrightarrow>
   parent_loop ps n i acc = Some (foldl fmul acc (drop (nat i) (take (nat n) ps)))"
proof (induction ps n i acc rule: parent_loop.induct)
  case (1 ps n i acc)
  show ?case
  proof (cases "i < n")
    case True
    have r: "rd ps i = Some (ps ! nat i)" using True "1.prems" by (simp add: rd_in_range)
    have s: "drop (nat i) (take (nat n) ps) = ps ! nat i # drop (nat (i + 1)) (take (nat n) ps)"
      using True "1.prems" by (simp add: drop_take_step)
    have "parent_loop ps n (i + 1) (fmul acc (ps ! nat i)) =
        Some (foldl fmul (fmul acc (ps ! nat i)) (drop (nat (i + 1)) (take (nat n) ps)))"
      using "1.IH" [OF True r] "1.prems" by simp
    then show ?thesis using True r
      by (simp add: parent_loop.simps [of ps n i] s)
  next
    case False
    then have "nat n \<le> nat i" using "1.prems" by simp
    then show ?thesis using False by (simp add: parent_loop.simps [of ps n i])
  qed
qed

lemma propagate_risk_prefix:
  assumes "k \<le> int (length ps)"
  shows "propagate_risk f m ps k = Some (fmul (local_p_success f m) (product (take (nat k) ps)))"
  using parent_loop_folds [of 0 k ps one] assms
  by (simp add: propagate_risk_def product_def)

lemma valid_foldl_fmul: "valid acc \<Longrightarrow> valid (foldl fmul acc ps)"
  by (induction ps arbitrary: acc) (simp_all add: valid_fmul)

lemma valid_product: "valid (product ps)"
  by (simp add: product_def valid_foldl_fmul valid_one)

lemma fmul_commute: "fmul x y = fmul y x"
proof (cases x; cases y)
  fix s m e t n f
  assume xy: "x = Finite s m e" "y = Finite t n f"
  have "(s \<noteq> t) = (t \<noteq> s)" by auto
  then show ?thesis using xy by (simp only: fmul.simps mult.commute [of m n] add.commute [of e f])
qed auto

lemma fmul_one_left: "valid x \<Longrightarrow> fmul one x = x"
  using fmul_one [of x] by (simp add: fmul_commute [of one x])

lemma valid_local_p_success: "valid (local_p_success f m)"
  by (simp add: local_p_success_def fsub_def valid_fadd)

lemma parent_loop_nonpos: "k \<le> 0 \<Longrightarrow> parent_loop ps k 0 acc = Some acc"
  by (simp add: parent_loop.simps [of ps k 0])

lemma propagate_risk_nonpos: "k \<le> 0 \<Longrightarrow> propagate_risk f m ps k = Some (local_p_success f m)"
  by (simp add: propagate_risk_def parent_loop_nonpos fmul_one valid_local_p_success)

lemma is_zero_cases: "is_zero x \<Longrightarrow> \<exists>s e. x = Finite s 0 e"
  by (cases x) (auto simp: is_zero_def zero_def signed_def Let_def split: if_splits)

lemma is_zero_signed_zero: "is_zero (Finite s 0 e)"
  by (simp add: is_zero_def zero_def signed_def)

lemma fmul_zero_finite: "fmul (Finite s 0 e) (Finite t n f) = Finite (s \<noteq> t) 0 (- 149)"
  by (simp add: round_float_def)

lemma fmul_finite_zero: "fmul (Finite t n f) (Finite s 0 e) = Finite (t \<noteq> s) 0 (- 149)"
  by (simp add: round_float_def)

lemma one_minus_zero: "fsub one (Finite u 0 (- 149)) = one"
  by (cases u) (simp_all, code_simp+)

lemma local_p_success_zero:
  assumes "is_zero f" "is_finite m"
  shows "local_p_success f m = one"
proof -
  obtain s e where f: "f = Finite s 0 e" using is_zero_cases [OF assms(1)] by blast
  obtain t n g where m: "m = Finite t n g" using assms(2) by (cases m) (simp_all add: is_finite_def)
  have p: "fmul f m = Finite (s \<noteq> t) 0 (- 149)" unfolding f m by (rule fmul_zero_finite)
  have "flt (Finite (s \<noteq> t) 0 (- 149)) one" by (simp add: one_def signed_def)
  then have "std_min one (fmul f m) = Finite (s \<noteq> t) 0 (- 149)" by (simp add: std_min_def p)
  then show ?thesis by (simp add: local_p_success_def one_minus_zero)
qed

lemma cosine_loop_swap:
  "cosine_loop v2 v1 sz i (d, b, a) =
     map_option (\<lambda>(d', a', b'). (d', b', a')) (cosine_loop v1 v2 sz i (d, a, b))"
proof (induction v1 v2 sz i "(d, a, b)" arbitrary: d a b rule: cosine_loop.induct)
  case (1 v1 v2 sz i d a b)
  show ?case
  proof (cases "i < sz")
    case True
    show ?thesis
    proof (cases "rd v1 i")
      case None
      then show ?thesis using True
        by (simp add: cosine_loop.simps [of _ _ sz i] split: option.splits)
    next
      case x: (Some x)
      show ?thesis
      proof (cases "rd v2 i")
        case None
        then show ?thesis using True x
          by (simp add: cosine_loop.simps [of _ _ sz i])
      next
        case y: (Some y)
        show ?thesis using True x y "1.hyps" [OF True refl x y]
          by (simp add: cosine_loop.simps [of _ _ sz i] fmul_commute [of y x])
      qed
    qed
  next
    case False
    then show ?thesis by (simp add: cosine_loop.simps [of _ _ sz i])
  qed
qed

lemma feq_zero_zero: "feq zero zero"
  by (simp add: zero_def)

lemma cosine_loop_nonpos: "sz \<le> 0 \<Longrightarrow> cosine_loop v1 v2 sz 0 acc = Some acc"
  by (cases acc) (simp add: cosine_loop.simps [of v1 v2 sz 0])

lemma is_zero_square: "is_zero x \<Longrightarrow> fmul x x = zero"
  using is_zero_cases [of x] by (auto simp: round_float_def zero_def)

lemma fadd_zero_zero: "fadd zero zero = zero"
  by (simp add: zero_def signed_def)

lemma squared_norm_zeros: "list_all is_zero v \<Longrightarrow> squared_norm v = zero"
proof -
  have "list_all is_zero v \<Longrightarrow> foldl sq_step zero v = zero"
    by (induction v) (simp_all add: sq_step_def is_zero_square fadd_zero_zero)
  then show "list_all is_zero v \<Longrightarrow> squared_norm v = zero"
    by (simp add: squared_norm_def)
qed


lemma fmul_zero_is_zero:
  assumes "is_zero x" "is_finite y"
  shows "is_zero (fmul x y)" "is_zero (fmul y x)"
proof -
  obtain s e where x: "x = Finite s 0 e" using is_zero_cases [OF assms(1)] by blast
  obtain t n g where y: "y = Finite t n g" using assms(2) by (cases y) (simp_all add: is_finite_def)
  show "is_zero (fmul x y)" unfolding x y fmul_zero_finite by (rule is_zero_signed_zero)
  show "is_zero (fmul y x)" unfolding x y fmul_finite_zero by (rule is_zero_signed_zero)
qed


section \<open>Monotone rounding\<close>

text \<open>
  Rounding is monotone: of two exact values the larger never rounds to the smaller float.
  Hence multiplication of non-negative floats is monotone in each factor, up to the NaN
  that \<open>0 * inf\<close> produces.
\<close>

lemma pow2_mono: "a \<le> b \<Longrightarrow> (2::int) ^ a \<le> 2 ^ b"
  by (rule power_increasing) simp_all

lemma ord_pack:
  assumes "0 \<le> m" "m \<le> 2 ^ 24" "- 149 \<le> e" "e = - 149 \<or> 2 ^ 23 \<le> m"
  shows "ord (pack False m e) = min (m * 2 ^ nat (e + 149)) (2 ^ 277)"
proof (cases "m = 2 ^ 24")
  case True
  show ?thesis
  proof (cases "104 < e + 1")
    case True
    then have "253 \<le> nat (e + 149)" by simp
    then have "(2::int) ^ 253 \<le> 2 ^ nat (e + 149)" by (rule pow2_mono)
    then have "(2::int) ^ 24 * 2 ^ 253 \<le> 2 ^ 24 * 2 ^ nat (e + 149)" by simp
    then have "(2::int) ^ 277 \<le> m * 2 ^ nat (e + 149)" using \<open>m = 2 ^ 24\<close> by simp
    then show ?thesis using True \<open>m = 2 ^ 24\<close> by (simp add: pack_def ord_def signed_def)
  next
    case False
    then have "nat (e + 1 + 149) \<le> 253" by simp
    then have "(2::int) ^ nat (e + 1 + 149) \<le> 2 ^ 253" by (rule pow2_mono)
    then have "(2::int) ^ 23 * 2 ^ nat (e + 1 + 149) \<le> 2 ^ 23 * 2 ^ 253" by simp
    moreover have "nat (e + 1 + 149) = Suc (nat (e + 149))" using assms(3) by simp
    ultimately have "(2::int) ^ 24 * 2 ^ nat (e + 149) \<le> 2 ^ 276" by simp
    moreover have "(2::int) ^ 23 * 2 ^ nat (e + 1 + 149) = 2 ^ 24 * 2 ^ nat (e + 149)"
      using \<open>nat (e + 1 + 149) = Suc (nat (e + 149))\<close> by simp
    ultimately show ?thesis using False \<open>m = 2 ^ 24\<close>
      by (simp add: pack_def ord_def signed_def)
  qed
next
  case False
  then have m: "m < 2 ^ 24" using assms(2) by simp
  show ?thesis
  proof (cases "104 < e")
    case True
    then have "2 ^ 23 \<le> m" using assms(4) by simp
    moreover have "254 \<le> nat (e + 149)" using True by simp
    then have "(2::int) ^ 254 \<le> 2 ^ nat (e + 149)" by (rule pow2_mono)
    ultimately have "(2::int) ^ 23 * 2 ^ 254 \<le> m * 2 ^ nat (e + 149)"
      by (intro mult_mono) simp_all
    then show ?thesis using True False by (simp add: pack_def ord_def signed_def)
  next
    case F: False
    then have "nat (e + 149) \<le> 253" by simp
    then have "(2::int) ^ nat (e + 149) \<le> 2 ^ 253" by (rule pow2_mono)
    then have "m * 2 ^ nat (e + 149) \<le> 2 ^ 24 * 2 ^ 253"
      using assms(1,2) by (intro mult_mono) simp_all
    then show ?thesis using F False by (simp add: pack_def ord_def signed_def)
  qed
qed

lemma ord_round_float:
  assumes "0 < M"
  shows "ord (round_float False M E) = min (rounded_units M E) (2 ^ 277)"
  using round_parts [OF assms, of E] round_exponent_ge [of M E] assms
  by (simp add: round_float_def rounded_units_def ord_pack)

lemma rounded_units_mono:
  assumes "0 < M1" "M1 \<le> M2"
  shows "rounded_units M1 E \<le> rounded_units M2 E"
proof -
  have M2: "0 < M2" using assms by simp
  define e1 where "e1 = round_exponent M1 E"
  define e2 where "e2 = round_exponent M2 E"
  have le: "e1 \<le> e2"
    using bit_length_mono [OF assms(2)] by (simp add: e1_def e2_def round_exponent_def)
  have p1: "0 \<le> round_mantissa M1 E" "round_mantissa M1 E \<le> 2 ^ 24"
    using round_parts [OF assms(1), of E] by simp_all
  have p2: "0 \<le> round_mantissa M2 E" "e2 = - 149 \<or> 2 ^ 23 \<le> round_mantissa M2 E"
    using round_parts [OF M2, of E] by (simp_all add: e2_def)
  have g1: "- 149 \<le> e1" by (simp add: e1_def round_exponent_ge)
  show ?thesis
  proof (cases "e1 = e2")
    case True
    have "round_mantissa M1 E \<le> round_mantissa M2 E"
      using True assms(2) unfolding e1_def e2_def
      by (simp add: round_mantissa_def Let_def round_even_mono)
    then show ?thesis using True unfolding e1_def e2_def
      by (simp add: rounded_units_def)
  next
    case False
    then have lt: "e1 < e2" using le by simp
    then have big: "2 ^ 23 \<le> round_mantissa M2 E" using p2 g1 by auto
    have "Suc (nat (e1 + 149)) \<le> nat (e2 + 149)" using lt g1 by simp
    then have "(2::int) ^ Suc (nat (e1 + 149)) \<le> 2 ^ nat (e2 + 149)" by (rule pow2_mono)
    then have "(2::int) ^ 23 * 2 ^ Suc (nat (e1 + 149)) \<le> 2 ^ 23 * 2 ^ nat (e2 + 149)"
      by simp
    also have "\<dots> \<le> round_mantissa M2 E * 2 ^ nat (e2 + 149)"
      using big by (intro mult_right_mono) simp_all
    finally have a: "(2::int) ^ 24 * 2 ^ nat (e1 + 149) \<le> round_mantissa M2 E * 2 ^ nat (e2 + 149)"
      by simp
    have "round_mantissa M1 E * 2 ^ nat (e1 + 149) \<le> 2 ^ 24 * 2 ^ nat (e1 + 149)"
      using p1 by (intro mult_right_mono) simp_all
    then show ?thesis using a unfolding rounded_units_def e1_def e2_def by linarith
  qed
qed

lemma ord_round_float_mono:
  assumes "0 \<le> M1" "M1 \<le> M2"
  shows "ord (round_float False M1 E) \<le> ord (round_float False M2 E)"
proof (cases "M1 = 0")
  case True
  show ?thesis
  proof (cases "M2 = 0")
    case True
    then show ?thesis using \<open>M1 = 0\<close> by simp
  next
    case False
    then have M2: "0 < M2" using assms by simp
    have "0 \<le> rounded_units M2 E"
      using round_parts [OF M2, of E] by (simp add: rounded_units_def)
    then show ?thesis using True ord_round_float [OF M2, of E]
      by (simp add: round_float_def ord_def signed_def)
  qed
next
  case False
  then have M1: "0 < M1" using assms by simp
  then have M2: "0 < M2" using assms by simp
  show ?thesis
    using rounded_units_mono [OF M1 assms(2), of E]
    by (simp add: ord_round_float [OF M1] ord_round_float [OF M2])
qed

lemma ord_round_float_range:
  "0 \<le> ord (round_float False M E) \<and> ord (round_float False M E) \<le> 2 ^ 277"
proof (cases "0 < M")
  case True
  have "0 \<le> rounded_units M E"
    using round_parts [OF True, of E] by (simp add: rounded_units_def)
  then show ?thesis by (simp add: ord_round_float [OF True])
next
  case False
  then show ?thesis by (simp add: round_float_def ord_def signed_def)
qed

lemma ord_simps:
  "ord NaN = 0"
  "ord (Infty s) = signed s (2 ^ 277)"
  "ord (Finite s m e) = signed s (m * 2 ^ nat (e + 149))"
  by (simp_all add: ord_def)

lemma ord_finite_bound:
  assumes "valid (Finite s m e)"
  shows "\<bar>ord (Finite s m e)\<bar> < 2 ^ 277"
proof -
  have m: "0 \<le> m" "m < 2 ^ 24" and e: "- 149 \<le> e" "e \<le> 104"
    using assms by (simp_all add: valid_def)
  have "nat (e + 149) \<le> 253" using e by simp
  then have "(2::int) ^ nat (e + 149) \<le> 2 ^ 253" by (rule pow2_mono)
  then have "m * 2 ^ nat (e + 149) \<le> 2 ^ 24 * 2 ^ 253"
    using m by (intro mult_mono) simp_all
  moreover have "0 \<le> m * 2 ^ nat (e + 149)" using m by simp
  moreover have "m * 2 ^ nat (e + 149) \<noteq> 2 ^ 24 * 2 ^ 253"
  proof
    assume h: "m * 2 ^ nat (e + 149) = 2 ^ 24 * 2 ^ 253"
    have "m * 2 ^ nat (e + 149) \<le> (2 ^ 24 - 1) * 2 ^ nat (e + 149)"
      using m by (intro mult_right_mono) simp_all
    also have "\<dots> \<le> (2 ^ 24 - 1) * 2 ^ 253"
      using \<open>(2::int) ^ nat (e + 149) \<le> 2 ^ 253\<close> by (intro mult_left_mono) simp_all
    finally show False using h by simp
  qed
  ultimately show ?thesis by (simp add: ord_def signed_def)
qed

lemma finite_compare_ord:
  assumes "valid (Finite s m e)" "valid (Finite t n f)"
  shows "(signed s m * 2 ^ nat (e - min e f) \<le> signed t n * 2 ^ nat (f - min e f))
           = (ord (Finite s m e) \<le> ord (Finite t n f))"
    and "(signed s m * 2 ^ nat (e - min e f) < signed t n * 2 ^ nat (f - min e f))
           = (ord (Finite s m e) < ord (Finite t n f))"
proof -
  define g where "g = min e f"
  define c where "c = (2::int) ^ nat (g + 149)"
  have e: "- 149 \<le> e" "- 149 \<le> f" using assms by (simp_all add: valid_def)
  have c: "0 < c" by (simp add: c_def)
  have "nat (e + 149) = nat (e - g) + nat (g + 149)" "nat (f + 149) = nat (f - g) + nat (g + 149)"
    using e by (simp_all add: g_def)
  then have p: "(2::int) ^ nat (e + 149) = 2 ^ nat (e - g) * c"
      "(2::int) ^ nat (f + 149) = 2 ^ nat (f - g) * c"
    by (simp_all add: c_def power_add)
  have o: "ord (Finite s m e) = (signed s m * 2 ^ nat (e - g)) * c"
      "ord (Finite t n f) = (signed t n * 2 ^ nat (f - g)) * c"
    by (simp_all add: ord_def p signed_def)
  show "(signed s m * 2 ^ nat (e - min e f) \<le> signed t n * 2 ^ nat (f - min e f))
           = (ord (Finite s m e) \<le> ord (Finite t n f))"
    unfolding o g_def [symmetric] using c by (simp only: mult_le_cancel_right_pos)
  show "(signed s m * 2 ^ nat (e - min e f) < signed t n * 2 ^ nat (f - min e f))
           = (ord (Finite s m e) < ord (Finite t n f))"
    unfolding o g_def [symmetric] using c by (simp only: mult_less_cancel_right_pos)
qed

lemma fle_ord:
  assumes "valid x" "valid y" "x \<noteq> NaN" "y \<noteq> NaN"
  shows "fle x y = (ord x \<le> ord y)"
proof (cases x; cases y)
  fix s m e t n f
  assume xy: "x = Finite s m e" "y = Finite t n f"
  show ?thesis using assms finite_compare_ord(1) [of s m e t n f] by (simp add: xy Let_def)
next
  fix s t n f
  assume xy: "x = Infty s" "y = Finite t n f"
  show ?thesis using assms ord_finite_bound [of t n f]
    by (cases s) (simp_all add: xy ord_simps(2) signed_def)
next
  fix s m e t
  assume xy: "x = Finite s m e" "y = Infty t"
  show ?thesis using assms ord_finite_bound [of s m e]
    by (cases t) (simp_all add: xy ord_simps(2) signed_def)
qed (use assms in \<open>auto simp: ord_def signed_def\<close>)

lemma flt_ord:
  assumes "valid x" "valid y" "x \<noteq> NaN" "y \<noteq> NaN"
  shows "flt x y = (ord x < ord y)"
proof (cases x; cases y)
  fix s m e t n f
  assume xy: "x = Finite s m e" "y = Finite t n f"
  show ?thesis using assms finite_compare_ord(2) [of s m e t n f] by (simp add: xy Let_def)
next
  fix s t n f
  assume xy: "x = Infty s" "y = Finite t n f"
  show ?thesis using assms ord_finite_bound [of t n f]
    by (cases s) (simp_all add: xy ord_simps(2) signed_def)
next
  fix s m e t
  assume xy: "x = Finite s m e" "y = Infty t"
  show ?thesis using assms ord_finite_bound [of s m e]
    by (cases t) (simp_all add: xy ord_simps(2) signed_def)
qed (use assms in \<open>auto simp: ord_def signed_def\<close>)

lemma ord_zero: "ord zero = 0"
  by (simp add: ord_def zero_def signed_def)

lemma valid_zero: "valid zero"
  by (simp add: valid_def zero_def)

lemma nonneg_iff: "nonneg x = (valid x \<and> x \<noteq> NaN \<and> 0 \<le> ord x)"
proof (cases "x = NaN")
  case True
  then show ?thesis by (simp add: nonneg_def zero_def)
next
  case False
  have "zero \<noteq> NaN" by (simp add: zero_def)
  then show ?thesis using False fle_ord [of zero x]
    by (auto simp: nonneg_def valid_zero ord_zero)
qed

lemma nonneg_finite_sign:
  assumes "nonneg (Finite s m e)" "m \<noteq> 0"
  shows "\<not> s" "0 < m"
proof -
  have v: "0 \<le> m" and o: "0 \<le> signed s (m * 2 ^ nat (e + 149))"
    using assms(1) by (simp_all add: nonneg_iff valid_def ord_simps)
  show "0 < m" using v assms(2) by simp
  then have "0 < m * 2 ^ nat (e + 149)" by simp
  then show "\<not> s" using o by (auto simp: signed_def)
qed

lemma fmul_nonneg_finite:
  assumes "nonneg (Finite s m e)" "nonneg (Finite t n f)"
  shows "ord (fmul (Finite s m e) (Finite t n f)) =
           ord (round_float False (ord (Finite s m e) * ord (Finite t n f)) (- 298))"
proof (cases "m = 0 \<or> n = 0")
  case True
  then have mn: "m * n = 0" by auto
  have l: "fmul (Finite s m e) (Finite t n f) = Finite (s \<noteq> t) 0 (- 149)"
    unfolding fmul.simps mn by (simp add: round_float_def)
  have z: "ord (Finite s m e) * ord (Finite t n f) = 0"
    using True by (auto simp: ord_simps signed_def)
  have r: "round_float False (ord (Finite s m e) * ord (Finite t n f)) (- 298) = Finite False 0 (- 149)"
    unfolding z by (simp add: round_float_def)
  show ?thesis unfolding l r by (simp add: ord_simps signed_def)
next
  case False
  then have s: "\<not> s" "0 < m" and t: "\<not> t" "0 < n"
    using nonneg_finite_sign assms by blast+
  have e: "- 149 \<le> e" "- 149 \<le> f" using assms by (simp_all add: nonneg_def valid_def)
  define k where "k = nat (e + 149) + nat (f + 149)"
  have o: "ord (Finite s m e) * ord (Finite t n f) = (m * n) * 2 ^ k"
    using s t by (simp add: ord_simps signed_def k_def power_add)
  have E: "- 298 = (e + f) - int k" using e by (simp add: k_def)
  have "0 < m * n" using s t by simp
  then have "round_float False ((m * n) * 2 ^ k) ((e + f) - int k) = round_float False (m * n) (e + f)"
    by (rule round_float_scale)
  then show ?thesis using s t unfolding o E by simp
qed

lemma fmul_infinity:
  assumes "nonneg z"
  shows "fmul (Infty False) z = (if ord z = 0 then NaN else Infty False)"
proof (cases z)
  case NaN
  then show ?thesis using assms by (simp add: nonneg_iff)
next
  case (Infty t)
  then show ?thesis using assms by (cases t) (simp_all add: nonneg_iff ord_simps signed_def)
next
  case (Finite t n f)
  show ?thesis
  proof (cases "n = 0")
    case True
    then show ?thesis by (simp add: Finite ord_simps signed_def)
  next
    case False
    then have "\<not> t" "0 < n" using nonneg_finite_sign assms Finite by blast+
    then show ?thesis by (simp add: Finite ord_simps signed_def)
  qed
qed

lemma nonneg_infinity: "nonneg (Infty s) \<Longrightarrow> \<not> s"
  by (cases s) (simp_all add: nonneg_iff ord_simps signed_def)

lemma fmul_mono:
  assumes x: "nonneg x" and y: "nonneg y" and z: "nonneg z" and le: "ord x \<le> ord y"
  shows "fmul x z = NaN \<or> fmul y z = NaN
       \<or> (0 \<le> ord (fmul x z) \<and> ord (fmul x z) \<le> ord (fmul y z))"
proof (cases z)
  case NaN
  then show ?thesis using z by (simp add: nonneg_iff)
next
  case (Infty t)
  then have zi: "z = Infty False" using z nonneg_infinity by auto
  have "fmul x z = (if ord x = 0 then NaN else Infty False)"
    "fmul y z = (if ord y = 0 then NaN else Infty False)"
    using fmul_infinity [OF x] fmul_infinity [OF y] by (simp_all add: zi fmul_commute [of _ "Infty False"])
  then show ?thesis by (auto simp: ord_simps signed_def)
next
  case zf: (Finite t n f)
  have oz: "0 \<le> ord z" using z by (simp add: nonneg_iff)
  show ?thesis
  proof (cases y)
    case NaN
    then show ?thesis using y by (simp add: nonneg_iff)
  next
    case (Infty u)
    then have yi: "y = Infty False" using y nonneg_infinity by auto
    have fy: "fmul y z = (if ord z = 0 then NaN else Infty False)"
      using fmul_infinity [OF z] by (simp add: yi)
    show ?thesis
    proof (cases x)
      case NaN
      then show ?thesis using x by (simp add: nonneg_iff)
    next
      case (Infty w)
      then have "x = y" using x nonneg_infinity yi by auto
      then show ?thesis using fy by (auto simp: ord_simps signed_def)
    next
      case (Finite s m e)
      have "ord (fmul x z) = ord (round_float False (ord x * ord z) (- 298))"
        using fmul_nonneg_finite x z unfolding Finite zf by blast
      then show ?thesis
        using ord_round_float_range [of "ord x * ord z" "- 298"] fy
        by (auto simp: ord_simps signed_def)
    qed
  next
    case yf: (Finite u k g)
    have "\<exists>s m e. x = Finite s m e"
    proof (cases x)
      case NaN
      then show ?thesis using x by (simp add: nonneg_iff)
    next
      case (Infty w)
      then have "ord x = 2 ^ 277" using x nonneg_infinity by (auto simp: ord_simps signed_def)
      moreover have "\<bar>ord y\<bar> < 2 ^ 277" using y unfolding yf nonneg_def by (intro ord_finite_bound) simp
      ultimately show ?thesis using le by simp
    qed simp
    then obtain s m e where xf: "x = Finite s m e" by blast
    have ox: "0 \<le> ord x" using x by (simp add: nonneg_iff)
    have a: "ord (fmul x z) = ord (round_float False (ord x * ord z) (- 298))"
      using fmul_nonneg_finite x z unfolding xf zf by blast
    have b: "ord (fmul y z) = ord (round_float False (ord y * ord z) (- 298))"
      using fmul_nonneg_finite y z unfolding yf zf by blast
    have "0 \<le> ord x * ord z" using ox oz by simp
    moreover have "ord x * ord z \<le> ord y * ord z" using le oz by (rule mult_right_mono)
    ultimately have "ord (fmul x z) \<le> ord (fmul y z)"
      unfolding a b by (rule ord_round_float_mono)
    moreover have "0 \<le> ord (fmul x z)"
      unfolding a using ord_round_float_range by blast
    ultimately show ?thesis by simp
  qed
qed

lemma related_step:
  assumes "related u v" "nonneg z"
  shows "related (fmul u z) (fmul v z)"
proof (cases "u = NaN \<or> v = NaN")
  case True
  then show ?thesis by (auto simp: related_def valid_fmul)
next
  case False
  then have "nonneg u" "nonneg v" "ord u \<le> ord v"
    using assms(1) by (auto simp: related_def nonneg_iff)
  then show ?thesis using fmul_mono [of u v z] assms(2)
    by (simp add: related_def valid_fmul)
qed

lemma related_foldl:
  "related u v \<Longrightarrow> list_all nonneg zs \<Longrightarrow> related (foldl fmul u zs) (foldl fmul v zs)"
  by (induction zs arbitrary: u v) (simp_all add: related_step)

lemma related_one: "related one one"
  by (simp add: related_def valid_one) (simp add: one_def ord_simps signed_def)

lemma related_left:
  assumes "related q q" "nonneg b" "nonneg a" "ord b \<le> ord a"
  shows "related (fmul q b) (fmul q a)"
proof (cases "q = NaN")
  case True
  then show ?thesis by (simp add: related_def valid_def)
next
  case False
  then have "nonneg q" using assms(1) by (simp add: related_def nonneg_iff)
  moreover have "related b a" using assms(2-4) by (simp add: related_def nonneg_iff)
  ultimately have "related (fmul b q) (fmul a q)" by (intro related_step)
  then show ?thesis by (simp add: fmul_commute [of q])
qed

lemma related_compare:
  assumes "related u v"
  shows "\<not> flt v u" and "u = NaN \<or> v = NaN \<or> fle u v"
proof -
  show "u = NaN \<or> v = NaN \<or> fle u v"
    using assms fle_ord [of u v] by (auto simp: related_def)
  show "\<not> flt v u"
  proof (cases "u = NaN \<or> v = NaN")
    case True
    then show ?thesis by (cases v; cases u) auto
  next
    case False
    then show ?thesis using assms flt_ord [of v u] by (auto simp: related_def)
  qed
qed

lemma take_update_split:
  assumes "k \<le> int (length ps)" "i < nat k"
  shows "take (nat k) (ps[i := a]) = take i ps @ a # drop (Suc i) (take (nat k) ps)"
proof -
  have l: "i < length (take (nat k) ps)" using assms by simp
  have "take (nat k) (ps[i := a]) = (take (nat k) ps)[i := a]" by (rule take_update_swap)
  also have "\<dots> = take i (take (nat k) ps) @ a # drop (Suc i) (take (nat k) ps)"
    using l by (rule upd_conv_take_nth_drop)
  also have "take i (take (nat k) ps) = take i ps" using assms(2) by (simp add: min_def)
  finally show ?thesis .
qed

lemma product_update:
  assumes "k \<le> int (length ps)" "i < nat k"
  shows "product (take (nat k) (ps[i := a])) =
           foldl fmul (fmul (product (take i ps)) a) (drop (Suc i) (take (nat k) ps))"
  by (simp add: take_update_split [OF assms] product_def)

lemma others_nonneg:
  assumes "k \<le> int (length ps)" "i < nat k" "\<forall>j < nat k. j \<noteq> i \<longrightarrow> nonneg (ps ! j)"
  shows "list_all nonneg (take i ps)" "list_all nonneg (drop (Suc i) (take (nat k) ps))"
proof -
  have len: "nat k \<le> length ps" using assms(1) by simp
  show "list_all nonneg (take i ps)"
    unfolding list_all_length using assms(2,3) len by simp
  show "list_all nonneg (drop (Suc i) (take (nat k) ps))"
    unfolding list_all_length using assms(2,3) len by simp
qed


section \<open>Rounding errors\<close>

text \<open>
  Error bounds in units of \<open>2^-149\<close>: a rounded value differs from the exact one by at
  most half a unit in the last place, which is at most \<open>2^-24\<close> of the value above the
  subnormal range. The integer square root is exact, so the sticky bits of \<open>fsqrt\<close> and
  \<open>fdiv\<close> stand for a value within \<open>2^-26\<close> of the exact one. Together these bound
  \<open>s / (sqrt s * sqrt s)\<close> for every positive finite float \<open>s\<close>.
\<close>

lemma sqrt_bits_correct:
  "0 \<le> r \<Longrightarrow> r * r \<le> n \<Longrightarrow> n < (r + 2 ^ k) * (r + 2 ^ k) \<Longrightarrow>
   0 \<le> sqrt_bits k n r \<and> sqrt_bits k n r * sqrt_bits k n r \<le> n
     \<and> n < (sqrt_bits k n r + 1) * (sqrt_bits k n r + 1)"
proof (induction k arbitrary: r)
  case 0
  then show ?case by simp
next
  case (Suc k)
  show ?case
  proof (cases "(r + 2 ^ k) * (r + 2 ^ k) \<le> n")
    case True
    have "n < (r + 2 ^ k + 2 ^ k) * (r + 2 ^ k + 2 ^ k)" using Suc.prems(3) by (simp add: algebra_simps)
    then show ?thesis using Suc.IH [of "r + 2 ^ k"] True Suc.prems(1) by (simp add: Let_def)
  next
    case False
    then show ?thesis using Suc.IH [of r] Suc.prems by (simp add: Let_def)
  qed
qed

lemma isqrt_correct:
  assumes "0 \<le> n" "n < 2 ^ 80"
  shows "0 \<le> isqrt n \<and> isqrt n * isqrt n \<le> n \<and> n < (isqrt n + 1) * (isqrt n + 1)"
proof -
  have "n < (0 + 2 ^ 40) * (0 + 2 ^ 40)" using assms(2) by simp
  then show ?thesis unfolding isqrt_def using assms(1) by (intro sqrt_bits_correct) simp_all
qed

lemma round_even_error: "\<bar>2 * (round_even M sh * 2 ^ sh - M)\<bar> \<le> 2 ^ sh"
proof -
  define d where "d = (2::int) ^ sh"
  define q where "q = M div d"
  define r where "r = M mod d"
  have d: "0 < d" by (simp add: d_def)
  have M: "M = q * d + r" unfolding q_def r_def by (rule div_mult_mod_eq [symmetric])
  have r: "0 \<le> r" "r < d" using d by (simp_all add: r_def)
  have re: "round_even M sh = (if d < 2 * r \<or> (2 * r = d \<and> odd q) then q + 1 else q)"
    by (simp add: round_even_def Let_def d_def q_def r_def)
  show ?thesis
  proof (cases "d < 2 * r \<or> (2 * r = d \<and> odd q)")
    case True
    then have "round_even M sh = q + 1" using re by simp
    then have "round_even M sh * d - M = d - r"
      using M by (simp add: algebra_simps)
    then show ?thesis unfolding d_def [symmetric] using True r by auto
  next
    case False
    then have "round_even M sh = q" using re by auto
    then have "round_even M sh * d - M = - r"
      using M by (simp add: algebra_simps)
    then show ?thesis unfolding d_def [symmetric] using False r by auto
  qed
qed

lemma pow_nat_powr: "0 \<le> z \<Longrightarrow> (2::real) ^ nat z = 2 powr real_of_int z"
  by (simp add: powr_realpow [symmetric])

lemma rounded_units_real:
  "real_of_int (rounded_units M E) =
     real_of_int (round_mantissa M E) * 2 powr real_of_int (round_exponent M E + 149)"
proof -
  have "0 \<le> round_exponent M E + 149" using round_exponent_ge [of M E] by simp
  then show ?thesis unfolding rounded_units_def by (simp add: pow_nat_powr)
qed

lemma round_units_error:
  assumes "0 < M"
  shows "\<bar>real_of_int (rounded_units M E) - exact_units M E\<bar>
           \<le> 2 powr real_of_int (round_exponent M E + 149) / 2"
proof -
  define e where "e = round_exponent M E"
  show ?thesis
  proof (cases "E \<le> e")
    case True
    define sh where "sh = nat (e - E)"
    have rm: "round_mantissa M E = round_even M sh"
      using True by (simp add: round_mantissa_def Let_def e_def sh_def)
    have p: "(2::real) ^ sh * 2 powr real_of_int (E + 149) = 2 powr real_of_int (e + 149)"
    proof -
      have "(2::real) ^ sh = 2 powr real_of_int (e - E)"
        unfolding sh_def using True by (intro pow_nat_powr) simp
      then show ?thesis by (simp add: powr_add [symmetric])
    qed
    have ie: "real_of_int \<bar>2 * (round_even M sh * 2 ^ sh - M)\<bar> \<le> real_of_int (2 ^ sh)"
      using round_even_error [of M sh] by (simp only: of_int_le_iff)
    define X where "X = real_of_int (round_even M sh) * 2 ^ sh - real_of_int M"
    define D where "D = (2::real) ^ sh"
    have "\<bar>2 * X\<bar> \<le> D"
      using ie by (simp add: X_def D_def)
    then have "\<bar>X\<bar> \<le> D / 2" by linarith
    then have i: "\<bar>real_of_int (round_even M sh) * 2 ^ sh - real_of_int M\<bar> \<le> 2 ^ sh / 2"
      by (simp add: X_def D_def)
    have "\<bar>real_of_int (rounded_units M E) - exact_units M E\<bar> =
        \<bar>real_of_int (round_even M sh) * 2 ^ sh - real_of_int M\<bar> * 2 powr real_of_int (E + 149)"
    proof -
      have "real_of_int (rounded_units M E) - exact_units M E =
          (real_of_int (round_even M sh) * 2 ^ sh - real_of_int M) * 2 powr real_of_int (E + 149)"
        unfolding rounded_units_real exact_units_def e_def [symmetric] rm p [symmetric]
        by (simp add: algebra_simps)
      then show ?thesis by (simp add: abs_mult)
    qed
    also have "\<dots> \<le> (2 ^ sh / 2) * 2 powr real_of_int (E + 149)"
      using i by (intro mult_right_mono) simp_all
    also have "\<dots> = 2 powr real_of_int (e + 149) / 2" using p by simp
    finally show ?thesis unfolding e_def .
  next
    case False
    have rm: "round_mantissa M E = M * 2 ^ nat (E - e)"
      using False by (simp add: round_mantissa_def Let_def e_def)
    have "(2::real) ^ nat (E - e) = 2 powr real_of_int (E - e)"
      using False by (intro pow_nat_powr) simp
    then have "(2::real) ^ nat (E - e) * 2 powr real_of_int (e + 149) = 2 powr real_of_int (E + 149)"
      by (simp add: powr_add [symmetric])
    then have "real_of_int (rounded_units M E) = exact_units M E"
      unfolding rounded_units_real exact_units_def e_def [symmetric] rm by (simp add: mult.assoc)
    then show ?thesis by simp
  qed
qed

lemma ulp_bound:
  assumes "0 < M" "round_exponent M E \<noteq> - 149"
  shows "2 powr real_of_int (round_exponent M E + 149) * 2 ^ 23 \<le> exact_units M E"
proof -
  define b where "b = bit_length M"
  have e: "round_exponent M E = E + int b - 24"
    using assms(2) by (simp add: round_exponent_def b_def max_def split: if_splits)
  have bpos: "0 < b" using assms(1) by (simp add: b_def bit_length_pos)
  have "2 ^ (b - 1) \<le> M" using bit_length_bounds [OF assms(1)] by (simp add: b_def)
  then have "real_of_int (2 ^ (b - 1)) \<le> real_of_int M" by (simp only: of_int_le_iff)
  then have lo: "(2::real) ^ (b - 1) \<le> real_of_int M" by simp
  have b1: "(2::real) ^ (b - 1) = 2 powr real_of_int (int b - 1)"
    using bpos pow_nat_powr [of "int b - 1"] by (simp add: nat_diff_distrib)
  have p23: "(2::real) ^ 23 = 2 powr 23" by simp
  have "2 powr real_of_int (E + int b - 24 + 149) * (2::real) powr 23 =
      2 powr (real_of_int (E + int b - 24 + 149) + 23)"
    by (rule powr_add [symmetric])
  also have "real_of_int (E + int b - 24 + 149) + 23 = real_of_int (int b - 1) + real_of_int (E + 149)"
    by simp
  also have "(2::real) powr (real_of_int (int b - 1) + real_of_int (E + 149)) =
      2 powr real_of_int (int b - 1) * 2 powr real_of_int (E + 149)"
    by (rule powr_add)
  finally have "2 powr real_of_int (round_exponent M E + 149) * 2 ^ 23 =
      2 ^ (b - 1) * 2 powr real_of_int (E + 149)"
    unfolding e p23 b1 .
  also have "\<dots> \<le> real_of_int M * 2 powr real_of_int (E + 149)"
    using lo by (intro mult_right_mono) simp_all
  finally show ?thesis unfolding exact_units_def .
qed

lemma round_units_relative:
  assumes "0 < M" "2 ^ 23 \<le> exact_units M E"
  shows "\<bar>real_of_int (rounded_units M E) - exact_units M E\<bar> \<le> exact_units M E / 2 ^ 24"
proof (cases "round_exponent M E = - 149")
  case True
  have "\<bar>real_of_int (rounded_units M E) - exact_units M E\<bar> \<le> 1 / 2"
    using round_units_error [OF assms(1), of E] True by simp
  also have "\<dots> \<le> exact_units M E / 2 ^ 24" using assms(2) by simp
  finally show ?thesis .
next
  case False
  have "\<bar>real_of_int (rounded_units M E) - exact_units M E\<bar>
      \<le> 2 powr real_of_int (round_exponent M E + 149) / 2"
    by (rule round_units_error [OF assms(1)])
  also have "\<dots> \<le> exact_units M E / 2 ^ 24"
    using ulp_bound [OF assms(1) False] by simp
  finally show ?thesis .
qed

lemma round_units_general:
  assumes "0 < M"
  shows "\<bar>real_of_int (rounded_units M E) - exact_units M E\<bar> \<le> 1 / 2
       \<or> \<bar>real_of_int (rounded_units M E) - exact_units M E\<bar> \<le> exact_units M E / 2 ^ 24"
proof (cases "round_exponent M E = - 149")
  case True
  then show ?thesis using round_units_error [OF assms, of E] by simp
next
  case False
  have "\<bar>real_of_int (rounded_units M E) - exact_units M E\<bar>
      \<le> 2 powr real_of_int (round_exponent M E + 149) / 2"
    by (rule round_units_error [OF assms])
  also have "\<dots> \<le> exact_units M E / 2 ^ 24"
    using ulp_bound [OF assms False] by simp
  finally show ?thesis by simp
qed

lemma pack_cases: "pack s m e = Infty s \<or> (\<exists>m' e'. pack s m e = Finite s m' e')"
  by (simp add: pack_def)

lemma round_float_units:
  assumes "0 < M" "rounded_units M E < 2 ^ 277"
  shows "\<exists>m e. round_float False M E = Finite False m e \<and> 0 \<le> m
           \<and> ord (Finite False m e) = rounded_units M E"
proof -
  have o: "ord (round_float False M E) = rounded_units M E"
    using ord_round_float [OF assms(1), of E] assms(2) by simp
  have v: "valid (round_float False M E)" by (rule valid_round_float)
  have "round_float False M E = pack False (round_mantissa M E) (round_exponent M E)"
    using assms(1) by (simp add: round_float_def)
  then consider "round_float False M E = Infty False"
    | m e where "round_float False M E = Finite False m e"
    using pack_cases [of False "round_mantissa M E" "round_exponent M E"] by auto
  then show ?thesis
  proof cases
    case 1
    then show ?thesis using o assms(2) by (simp add: ord_simps signed_def)
  next
    case (2 m e)
    then show ?thesis using o v by (auto simp: valid_def)
  qed
qed

lemma exact_units_square:
  "exact_units (T * T) (- 298) = real_of_int T * real_of_int T / 2 ^ 149"
proof -
  have "(2::real) powr real_of_int (- 298 + 149) = 1 / 2 ^ 149"
    by (simp add: powr_minus_divide)
  then show ?thesis by (simp add: exact_units_def)
qed

lemma fmul_square:
  assumes "valid (Finite False m e)" "0 < m"
  shows "fmul (Finite False m e) (Finite False m e) =
           round_float False (ord (Finite False m e) * ord (Finite False m e)) (- 298)"
proof -
  define k where "k = nat (e + 149) + nat (e + 149)"
  have e: "- 149 \<le> e" using assms(1) by (simp add: valid_def)
  have o: "ord (Finite False m e) * ord (Finite False m e) = (m * m) * 2 ^ k"
    by (simp add: ord_simps signed_def k_def power_add)
  have E: "- 298 = (e + e) - int k" using e by (simp add: k_def)
  have "0 < m * m" using assms(2) by simp
  then have "round_float False ((m * m) * 2 ^ k) ((e + e) - int k) = round_float False (m * m) (e + e)"
    by (rule round_float_scale)
  then show ?thesis unfolding o E by simp
qed

lemma ord_finite_real:
  assumes "- 149 \<le> e"
  shows "real_of_int (ord (Finite False m e)) = real_of_int m * 2 powr real_of_int (e + 149)"
proof -
  have "0 \<le> e + 149" using assms by simp
  then show ?thesis by (simp add: ord_simps signed_def pow_nat_powr)
qed

lemma fsqrt_form:
  assumes v: "valid (Finite False m e)" and m: "0 < m"
  shows "\<exists>X E'. 0 < X \<and> fsqrt (Finite False m e) = round_float False X E'
           \<and> \<bar>exact_units X E' * exact_units X E' - real_of_int (ord (Finite False m e)) * 2 ^ 149\<bar>
               \<le> real_of_int (ord (Finite False m e)) * 2 ^ 149 / 2 ^ 26"
proof -
  define k :: nat where "k = (if even e then 52 else 53)"
  define M where "M = m * 2 ^ k"
  define r where "r = isqrt M"
  define sticky :: int where "sticky = (if r * r = M then 0 else 1)"
  define X where "X = 2 * r + sticky"
  define h where "h = (e - int k) div 2"
  define E' where "E' = h - 1"
  have e: "- 149 \<le> e" and m24: "m < 2 ^ 24" using v by (simp_all add: valid_def)
  have k: "k \<le> 53" "52 \<le> k" by (simp_all add: k_def)
  have h: "2 * h = e - int k" unfolding h_def k_def by (cases "even e") auto
  have f: "fsqrt (Finite False m e) = round_float False X E'"
    using m by (simp add: Let_def k_def M_def r_def sticky_def X_def h_def E'_def)
  have M52: "2 ^ 52 \<le> M"
  proof -
    have "(2::int) ^ 52 \<le> 2 ^ k" using k(2) by (rule pow2_mono)
    also have "\<dots> = 1 * 2 ^ k" by simp
    also have "\<dots> \<le> m * 2 ^ k" using m by (intro mult_right_mono) simp_all
    finally show ?thesis unfolding M_def .
  qed
  have M80: "M < 2 ^ 80"
  proof -
    have "(2::int) ^ k \<le> 2 ^ 53" using k(1) by (rule pow2_mono)
    then have "m * 2 ^ k \<le> 2 ^ 24 * 2 ^ 53" using m m24 by (intro mult_mono) simp_all
    then show ?thesis unfolding M_def by simp
  qed
  have M0: "0 \<le> M" using M52 by simp
  have r: "0 \<le> r" "r * r \<le> M" "M < (r + 1) * (r + 1)"
    using isqrt_correct [OF M0 M80] by (simp_all add: r_def)
  have r26: "2 ^ 26 \<le> r"
  proof (rule ccontr)
    assume "\<not> 2 ^ 26 \<le> r"
    then have "r + 1 \<le> 2 ^ 26" by simp
    then have "(r + 1) * (r + 1) \<le> 2 ^ 26 * 2 ^ 26" using r(1) by (intro mult_mono) simp_all
    then show False using r(3) M52 by simp
  qed
  have X: "0 < X" using r26 by (simp add: X_def sticky_def)
  have d: "\<bar>X * X - 4 * M\<bar> \<le> 4 * r"
  proof (cases "r * r = M")
    case True
    then have "X * X = 4 * M" by (simp add: X_def sticky_def algebra_simps)
    then show ?thesis using r(1) by simp
  next
    case False
    then have "r * r + 1 \<le> M" "M \<le> r * r + 2 * r"
      using r(2,3) by (simp_all add: algebra_simps)
    moreover have "X * X = 4 * (r * r) + 4 * r + 1"
      using False by (simp add: X_def sticky_def algebra_simps)
    ultimately show ?thesis by linarith
  qed
  have "r * 2 ^ 26 \<le> r * r" using r26 r(1) by (intro mult_left_mono) simp_all
  then have "r * 2 ^ 26 \<le> M" using r(2) by (rule order_trans)
  then have b: "(4 * r) * 2 ^ 26 \<le> 4 * M" by simp
  have "\<bar>X * X - 4 * M\<bar> * 2 ^ 26 \<le> (4 * r) * 2 ^ 26"
    using d by (intro mult_right_mono) simp_all
  then have "\<bar>X * X - 4 * M\<bar> * 2 ^ 26 \<le> 4 * M" using b by (rule order_trans)
  then have "real_of_int (\<bar>X * X - 4 * M\<bar> * 2 ^ 26) \<le> real_of_int (4 * M)"
    by (simp only: of_int_le_iff)
  then have dr: "\<bar>real_of_int X * real_of_int X - 4 * real_of_int M\<bar> \<le> 4 * real_of_int M / 2 ^ 26"
    by simp
  define c where "c = (2::real) powr real_of_int (2 * h + 296)"
  have c: "0 < c" by (simp add: c_def)
  have u2: "exact_units X E' * exact_units X E' = real_of_int X * real_of_int X * c"
  proof -
    have "(2::real) powr real_of_int (E' + 149) * 2 powr real_of_int (E' + 149) =
        2 powr (real_of_int (E' + 149) + real_of_int (E' + 149))"
      by (rule powr_add [symmetric])
    also have "real_of_int (E' + 149) + real_of_int (E' + 149) = real_of_int (2 * h + 296)"
      by (simp add: E'_def)
    finally have "(2::real) powr real_of_int (E' + 149) * 2 powr real_of_int (E' + 149) = c"
      unfolding c_def .
    then show ?thesis by (simp add: exact_units_def algebra_simps)
  qed
  have A: "real_of_int (ord (Finite False m e)) * 2 ^ 149 = 4 * real_of_int M * c"
  proof -
    have p2: "(4::real) = 2 powr 2" "(2::real) ^ 149 = 2 powr 149" by simp_all
    have pk: "(2::real) ^ k = 2 powr real_of_int (int k)" by (simp add: powr_realpow)
    have "real_of_int (ord (Finite False m e)) * 2 ^ 149 =
        real_of_int m * (2 powr real_of_int (e + 149) * 2 powr 149)"
      by (simp add: ord_finite_real [OF e])
    also have "2 powr real_of_int (e + 149) * (2::real) powr 149 = 2 powr (real_of_int (e + 149) + 149)"
      by (rule powr_add [symmetric])
    also have "real_of_int (e + 149) + 149 = 2 + (real_of_int (int k) + real_of_int (2 * h + 296))"
      using h by simp
    also have "(2::real) powr (2 + (real_of_int (int k) + real_of_int (2 * h + 296))) =
        2 powr 2 * (2 powr real_of_int (int k) * 2 powr real_of_int (2 * h + 296))"
      by (simp only: powr_add)
    finally show ?thesis unfolding M_def c_def by (simp add: pk)
  qed
  have "\<bar>exact_units X E' * exact_units X E' - real_of_int (ord (Finite False m e)) * 2 ^ 149\<bar>
      = \<bar>real_of_int X * real_of_int X - 4 * real_of_int M\<bar> * c"
  proof -
    have "exact_units X E' * exact_units X E' - real_of_int (ord (Finite False m e)) * 2 ^ 149
        = (real_of_int X * real_of_int X - 4 * real_of_int M) * c"
      unfolding u2 A by (simp add: algebra_simps)
    then show ?thesis using c by (simp add: abs_mult)
  qed
  also have "\<dots> \<le> (4 * real_of_int M / 2 ^ 26) * c"
    using dr c by (intro mult_right_mono) simp_all
  also have "\<dots> = real_of_int (ord (Finite False m e)) * 2 ^ 149 / 2 ^ 26"
    unfolding A by simp
  finally show ?thesis using X f by blast
qed

lemma fdiv_form:
  assumes vs: "valid (Finite False m e)" and vp: "valid (Finite False n f)"
    and m: "0 < m" and n: "0 < n"
  shows "\<exists>X. 0 < X \<and> fdiv (Finite False m e) (Finite False n f) = round_float False X (e - f - 51)
           \<and> \<bar>exact_units X (e - f - 51) * real_of_int (ord (Finite False n f))
                 - real_of_int (ord (Finite False m e)) * 2 ^ 149\<bar>
               \<le> real_of_int (ord (Finite False m e)) * 2 ^ 149 / 2 ^ 27"
proof -
  define N where "N = m * 2 ^ 50"
  define q where "q = N div n"
  define rho where "rho = N mod n"
  define sticky :: int where "sticky = (if rho = 0 then 0 else 1)"
  define X where "X = 2 * q + sticky"
  have e: "- 149 \<le> e" "- 149 \<le> f" and n24: "n < 2 ^ 24"
    using vs vp by (simp_all add: valid_def)
  have fd: "fdiv (Finite False m e) (Finite False n f) = round_float False X (e - f - 51)"
    using n by (simp add: Let_def N_def q_def rho_def sticky_def X_def)
  have N: "N = q * n + rho" unfolding q_def rho_def by (rule div_mult_mod_eq [symmetric])
  have rho: "0 \<le> rho" "rho < n" using n by (simp_all add: rho_def)
  have N50: "2 ^ 50 \<le> N"
  proof -
    have "1 * (2::int) ^ 50 \<le> m * 2 ^ 50" using m by (intro mult_right_mono) simp_all
    then show ?thesis by (simp add: N_def)
  qed
  have "2 ^ 26 * n \<le> 2 ^ 26 * 2 ^ 24" using n24 by (intro mult_left_mono) simp_all
  then have "2 ^ 26 * n \<le> N" using N50 by simp
  then have q26: "2 ^ 26 \<le> q" unfolding q_def using n by (intro div_lower) simp_all
  then have X: "0 < X" by (simp add: X_def sticky_def)
  have d: "\<bar>X * n - 2 * N\<bar> \<le> n"
  proof (cases "rho = 0")
    case True
    then show ?thesis using N n by (simp add: X_def sticky_def algebra_simps)
  next
    case False
    then have "X * n - 2 * N = n - 2 * rho"
      using N by (simp add: X_def sticky_def algebra_simps)
    then show ?thesis using rho False by simp
  qed
  have "n * 2 ^ 27 \<le> 2 ^ 24 * 2 ^ 27" using n24 by (intro mult_right_mono) simp_all
  then have "n * 2 ^ 27 \<le> 2 * N" using N50 by simp
  moreover have "\<bar>X * n - 2 * N\<bar> * 2 ^ 27 \<le> n * 2 ^ 27"
    using d by (intro mult_right_mono) simp_all
  ultimately have "\<bar>X * n - 2 * N\<bar> * 2 ^ 27 \<le> 2 * N" by (rule order_trans [rotated])
  then have "real_of_int (\<bar>X * n - 2 * N\<bar> * 2 ^ 27) \<le> real_of_int (2 * N)"
    by (simp only: of_int_le_iff)
  then have dr: "\<bar>real_of_int X * real_of_int n - 2 * real_of_int N\<bar> \<le> 2 * real_of_int N / 2 ^ 27"
    by simp
  define c where "c = (2::real) powr real_of_int (e + 247)"
  have c: "0 < c" by (simp add: c_def)
  have u: "exact_units X (e - f - 51) * real_of_int (ord (Finite False n f)) =
      real_of_int X * real_of_int n * c"
  proof -
    have "(2::real) powr real_of_int (e - f - 51 + 149) * 2 powr real_of_int (f + 149) =
        2 powr (real_of_int (e - f - 51 + 149) + real_of_int (f + 149))"
      by (rule powr_add [symmetric])
    also have "real_of_int (e - f - 51 + 149) + real_of_int (f + 149) = real_of_int (e + 247)"
      by simp
    finally have "(2::real) powr real_of_int (e - f - 51 + 149) * 2 powr real_of_int (f + 149) = c"
      unfolding c_def .
    then show ?thesis
      by (simp add: exact_units_def ord_finite_real [OF e(2)] algebra_simps)
  qed
  have A: "real_of_int (ord (Finite False m e)) * 2 ^ 149 = 2 * real_of_int N * c"
  proof -
    have p: "(2::real) ^ 149 = 2 powr 149" "(2::real) * 2 ^ 50 = 2 powr 51" by simp_all
    have "real_of_int (ord (Finite False m e)) * 2 ^ 149 =
        real_of_int m * (2 powr real_of_int (e + 149) * 2 powr 149)"
      by (simp add: ord_finite_real [OF e(1)])
    also have "2 powr real_of_int (e + 149) * (2::real) powr 149 = 2 powr (real_of_int (e + 149) + 149)"
      by (rule powr_add [symmetric])
    also have "real_of_int (e + 149) + 149 = 51 + real_of_int (e + 247)" by simp
    also have "(2::real) powr (51 + real_of_int (e + 247)) = 2 powr 51 * 2 powr real_of_int (e + 247)"
      by (rule powr_add)
    finally have "real_of_int (ord (Finite False m e)) * 2 ^ 149 = real_of_int m * (2 powr 51 * c)"
      unfolding c_def .
    then show ?thesis unfolding N_def p(2) [symmetric] by simp
  qed
  have "\<bar>exact_units X (e - f - 51) * real_of_int (ord (Finite False n f))
        - real_of_int (ord (Finite False m e)) * 2 ^ 149\<bar>
      = \<bar>real_of_int X * real_of_int n - 2 * real_of_int N\<bar> * c"
  proof -
    have "exact_units X (e - f - 51) * real_of_int (ord (Finite False n f))
        - real_of_int (ord (Finite False m e)) * 2 ^ 149
        = (real_of_int X * real_of_int n - 2 * real_of_int N) * c"
      unfolding u A by (simp add: algebra_simps)
    then show ?thesis using c by (simp add: abs_mult)
  qed
  also have "\<dots> \<le> (2 * real_of_int N / 2 ^ 27) * c"
    using dr c by (intro mult_right_mono) simp_all
  also have "\<dots> = real_of_int (ord (Finite False m e)) * 2 ^ 149 / 2 ^ 27"
    unfolding A by simp
  finally show ?thesis using X fd by blast
qed

lemma exact_units_pos: "0 < M \<Longrightarrow> 0 < exact_units M E"
  by (simp add: exact_units_def)

lemma square_less: "0 \<le> a \<Longrightarrow> a < b \<Longrightarrow> a * a < b * (b::real)"
  by (rule mult_strict_mono') simp_all

lemma square_le: "0 \<le> a \<Longrightarrow> a \<le> b \<Longrightarrow> a * a \<le> b * (b::real)"
  by (rule mult_mono) simp_all

lemma abs_rel_bounds:
  assumes "\<bar>w - a\<bar> \<le> a * (d::real)"
  shows "a * (1 - d) \<le> w" "w \<le> a * (1 + d)"
proof -
  define c where "c = a * d"
  have e: "a * (1 - d) = a - c" "a * (1 + d) = a + c" by (simp_all add: algebra_simps c_def)
  have "w - a \<le> c" "- (w - a) \<le> c" using assms unfolding c_def abs_le_iff by simp_all
  then show "a * (1 - d) \<le> w" "w \<le> a * (1 + d)" unfolding e by simp_all
qed

lemma ord_positive_bounds:
  assumes "valid (Finite False m e)" "0 < m"
  shows "1 \<le> ord (Finite False m e)" "ord (Finite False m e) < 2 ^ 277"
proof -
  have "0 < m * 2 ^ nat (e + 149)" using assms(2) by simp
  then show "1 \<le> ord (Finite False m e)" by (simp add: ord_simps signed_def)
  show "ord (Finite False m e) < 2 ^ 277" using ord_finite_bound [OF assms(1)] by linarith
qed

lemma ord_positive_real:
  assumes "valid (Finite False m e)" "0 < m"
  shows "1 \<le> real_of_int (ord (Finite False m e))"
    and "real_of_int (ord (Finite False m e)) < 2 ^ 277"
proof -
  have "real_of_int 1 \<le> real_of_int (ord (Finite False m e))"
    using ord_positive_bounds(1) [OF assms] by (simp only: of_int_le_iff)
  then show "1 \<le> real_of_int (ord (Finite False m e))" by simp
  have "real_of_int (ord (Finite False m e)) < real_of_int (2 ^ 277)"
    using ord_positive_bounds(2) [OF assms] by (simp only: of_int_less_iff)
  then show "real_of_int (ord (Finite False m e)) < 2 ^ 277" by simp
qed

lemma sqrt_units:
  assumes v: "valid (Finite False m e)" and m: "0 < m"
  shows "\<exists>mt et. fsqrt (Finite False m e) = Finite False mt et \<and> valid (Finite False mt et) \<and> 0 < mt
      \<and> real_of_int (ord (Finite False m e)) * 2 ^ 149 * (1 - 3 / 2 ^ 24)
           \<le> real_of_int (ord (Finite False mt et)) * real_of_int (ord (Finite False mt et))
      \<and> real_of_int (ord (Finite False mt et)) * real_of_int (ord (Finite False mt et))
           \<le> real_of_int (ord (Finite False m e)) * 2 ^ 149 * (1 + 3 / 2 ^ 24)"
proof -
  define A where "A = real_of_int (ord (Finite False m e)) * 2 ^ 149"
  obtain X E' where X: "0 < X" and f: "fsqrt (Finite False m e) = round_float False X E'"
    and d: "\<bar>exact_units X E' * exact_units X E' - A\<bar> \<le> A / 2 ^ 26"
    using fsqrt_form [OF v m] unfolding A_def by blast
  define U where "U = exact_units X E'"
  define T where "T = real_of_int (rounded_units X E')"
  have U: "0 < U" unfolding U_def using X by (rule exact_units_pos)
  have S: "1 \<le> real_of_int (ord (Finite False m e))" "real_of_int (ord (Finite False m e)) < 2 ^ 277"
    using ord_positive_real [OF v m] by simp_all
  have A: "2 ^ 149 \<le> A" "A < 2 ^ 426"
    using S by (simp_all add: A_def)
  define W where "W = U * U"
  have "\<bar>W - A\<bar> \<le> A / 2 ^ 26" using d unfolding U_def [symmetric] W_def .
  then have "\<bar>W - A\<bar> \<le> A * (1 / 2 ^ 26)" by simp
  then have "A * (1 - 1 / 2 ^ 26) \<le> W" "W \<le> A * (1 + 1 / 2 ^ 26)"
    by (rule abs_rel_bounds)+
  then have UU: "A * (1 - 1 / 2 ^ 26) \<le> U * U" "U * U \<le> A * (1 + 1 / 2 ^ 26)"
    unfolding W_def .
  have U23: "2 ^ 23 \<le> U"
  proof (rule ccontr)
    assume "\<not> 2 ^ 23 \<le> U"
    then have "U * U < 2 ^ 23 * 2 ^ 23" using U by (intro square_less) simp_all
    moreover have "(2::real) ^ 149 * (1 - 1 / 2 ^ 26) \<le> A * (1 - 1 / 2 ^ 26)"
      using A(1) by (intro mult_right_mono) simp_all
    ultimately show False using UU(1) by simp
  qed
  have U214: "U < 2 ^ 214"
  proof (rule ccontr)
    assume "\<not> U < 2 ^ 214"
    then have "2 ^ 214 * 2 ^ 214 \<le> U * U" by (intro square_le) simp_all
    moreover have "A * (1 + 1 / 2 ^ 26) \<le> 2 ^ 426 * (1 + 1 / 2 ^ 26)"
      using A(2) by (intro mult_right_mono) simp_all
    ultimately show False using UU(2) by simp
  qed
  have err: "\<bar>T - U\<bar> \<le> U / 2 ^ 24"
    unfolding T_def U_def using X U23 [unfolded U_def] by (rule round_units_relative)
  then have "\<bar>T - U\<bar> \<le> U * (1 / 2 ^ 24)" by simp
  then have T: "U * (1 - 1 / 2 ^ 24) \<le> T" "T \<le> U * (1 + 1 / 2 ^ 24)"
    by (rule abs_rel_bounds)+
  have "T \<le> 2 ^ 214 * (1 + 1 / 2 ^ 24)"
  proof -
    have "U * (1 + 1 / 2 ^ 24) \<le> 2 ^ 214 * (1 + 1 / 2 ^ 24)"
      using U214 by (intro mult_right_mono) simp_all
    then show ?thesis using T(2) by linarith
  qed
  then have "T < 2 ^ 277" by simp
  then have "real_of_int (rounded_units X E') < real_of_int (2 ^ 277)"
    by (simp add: T_def)
  then have "rounded_units X E' < 2 ^ 277" by (simp only: of_int_less_iff)
  then obtain mt et where t: "round_float False X E' = Finite False mt et" "0 \<le> mt"
      and o: "ord (Finite False mt et) = rounded_units X E'"
    using round_float_units [OF X] by blast
  have vt: "valid (Finite False mt et)" using valid_round_float [of False X E'] t by simp
  have lo0: "0 < U * (1 - 1 / 2 ^ 24)" using U by simp
  then have Tpos: "0 < T" using T(1) by linarith
  have mt: "0 < mt"
  proof (rule ccontr)
    assume "\<not> 0 < mt"
    then have "mt = 0" using t(2) by simp
    then have "T = 0" unfolding T_def o [symmetric] by (simp add: ord_simps signed_def)
    then show False using Tpos by simp
  qed
  have lower: "A * (1 - 3 / 2 ^ 24) \<le> T * T"
  proof -
    have "A * (1 - 3 / 2 ^ 24) \<le> A * ((1 - 1 / 2 ^ 26) * ((1 - 1 / 2 ^ 24) * (1 - 1 / 2 ^ 24)))"
      using A(1) by (intro mult_left_mono) simp_all
    also have "\<dots> = (A * (1 - 1 / 2 ^ 26)) * ((1 - 1 / 2 ^ 24) * (1 - 1 / 2 ^ 24))"
      by (simp only: mult.assoc)
    also have "\<dots> \<le> (U * U) * ((1 - 1 / 2 ^ 24) * (1 - 1 / 2 ^ 24))"
      using UU(1) by (intro mult_right_mono) simp_all
    also have "\<dots> = (U * (1 - 1 / 2 ^ 24)) * (U * (1 - 1 / 2 ^ 24))"
      by (simp only: mult.assoc mult.left_commute mult.commute)
    also have "\<dots> \<le> T * T" using lo0 T(1) by (intro square_le) simp_all
    finally show ?thesis .
  qed
  have upper: "T * T \<le> A * (1 + 3 / 2 ^ 24)"
  proof -
    have "T * T \<le> (U * (1 + 1 / 2 ^ 24)) * (U * (1 + 1 / 2 ^ 24))"
      using Tpos T(2) by (intro square_le) simp_all
    also have "\<dots> = (U * U) * ((1 + 1 / 2 ^ 24) * (1 + 1 / 2 ^ 24))"
      by (simp only: mult.assoc mult.left_commute mult.commute)
    also have "\<dots> \<le> (A * (1 + 1 / 2 ^ 26)) * ((1 + 1 / 2 ^ 24) * (1 + 1 / 2 ^ 24))"
      using UU(2) by (intro mult_right_mono) simp_all
    also have "\<dots> = A * ((1 + 1 / 2 ^ 26) * ((1 + 1 / 2 ^ 24) * (1 + 1 / 2 ^ 24)))"
      by (simp only: mult.assoc)
    also have "\<dots> \<le> A * (1 + 3 / 2 ^ 24)"
      using A(1) by (intro mult_left_mono) simp_all
    finally show ?thesis .
  qed
  show ?thesis
    using f t(1) vt mt lower upper unfolding A_def T_def o [symmetric] by auto
qed

lemma square_units:
  assumes vt: "valid (Finite False mt et)" and mt: "0 < mt"
    and S1: "1 \<le> Si" and top: "Si \<le> (2 ^ 24 - 6) * 2 ^ 253"
    and lo: "real_of_int Si * 2 ^ 149 * (1 - 3 / 2 ^ 24)
           \<le> real_of_int (ord (Finite False mt et)) * real_of_int (ord (Finite False mt et))"
    and hi: "real_of_int (ord (Finite False mt et)) * real_of_int (ord (Finite False mt et))
           \<le> real_of_int Si * 2 ^ 149 * (1 + 3 / 2 ^ 24)"
  shows "\<exists>n f. fmul (Finite False mt et) (Finite False mt et) = Finite False n f
      \<and> valid (Finite False n f) \<and> 0 < n
      \<and> real_of_int Si * (1 - 9 / 2 ^ 24) \<le> real_of_int (ord (Finite False n f))
      \<and> real_of_int (ord (Finite False n f)) \<le> real_of_int Si * (1 + 9 / 2 ^ 24)"
proof -
  define Ti where "Ti = ord (Finite False mt et)"
  define S where "S = real_of_int Si"
  define U where "U = exact_units (Ti * Ti) (- 298)"
  define Pi where "Pi = rounded_units (Ti * Ti) (- 298)"
  define P where "P = real_of_int Pi"
  have Ti: "0 < Ti" using ord_positive_bounds(1) [OF vt mt] by (simp add: Ti_def)
  then have M: "0 < Ti * Ti" by simp
  have f: "fmul (Finite False mt et) (Finite False mt et) = round_float False (Ti * Ti) (- 298)"
    unfolding Ti_def using vt mt by (rule fmul_square)
  have U: "U = real_of_int Ti * real_of_int Ti / 2 ^ 149"
    unfolding U_def by (rule exact_units_square)
  have S: "1 \<le> S" "S \<le> (2 ^ 24 - 6) * 2 ^ 253"
  proof -
    have "real_of_int 1 \<le> real_of_int Si" using S1 by (simp only: of_int_le_iff)
    then show "1 \<le> S" by (simp add: S_def)
    have "real_of_int Si \<le> real_of_int ((2 ^ 24 - 6) * 2 ^ 253)"
      using top by (simp only: of_int_le_iff)
    then show "S \<le> (2 ^ 24 - 6) * 2 ^ 253" by (simp add: S_def)
  qed
  have Ub: "S * (1 - 3 / 2 ^ 24) \<le> U" "U \<le> S * (1 + 3 / 2 ^ 24)"
  proof -
    have "S * (1 - 3 / 2 ^ 24) = (S * 2 ^ 149 * (1 - 3 / 2 ^ 24)) / 2 ^ 149" by simp
    also have "\<dots> \<le> (real_of_int Ti * real_of_int Ti) / 2 ^ 149"
      using lo unfolding S_def Ti_def by (intro divide_right_mono) simp_all
    finally show "S * (1 - 3 / 2 ^ 24) \<le> U" unfolding U .
    have "U = (real_of_int Ti * real_of_int Ti) / 2 ^ 149" by (rule U)
    also have "\<dots> \<le> (S * 2 ^ 149 * (1 + 3 / 2 ^ 24)) / 2 ^ 149"
      using hi unfolding S_def Ti_def by (intro divide_right_mono) simp_all
    also have "\<dots> = S * (1 + 3 / 2 ^ 24)" by simp
    finally show "U \<le> S * (1 + 3 / 2 ^ 24)" .
  qed
  have Upos: "0 < U" unfolding U_def using M by (rule exact_units_pos)
  have G: "\<bar>P - U\<bar> \<le> 1 / 2 \<or> \<bar>P - U\<bar> \<le> U / 2 ^ 24"
    unfolding P_def Pi_def U_def using M by (rule round_units_general)
  define c3 where "c3 = S * (3 / 2 ^ 24)"
  define d where "d = U / 2 ^ 24"
  have U3: "S - c3 \<le> U" "U \<le> S + c3"
    using Ub by (simp_all add: c3_def algebra_simps)
  have d: "0 < d" "d * 2 ^ 24 = U" using Upos by (simp_all add: d_def)
  have G': "\<bar>P - U\<bar> \<le> 1 / 2 \<or> \<bar>P - U\<bar> \<le> d" using G by (simp add: d_def)
  have Pup: "P \<le> U + 1 / 2 + d"
  proof -
    from G' show ?thesis
    proof
      assume "\<bar>P - U\<bar> \<le> 1 / 2"
      then have "P - U \<le> 1 / 2" by (rule abs_le_D1)
      then show ?thesis using d(1) by linarith
    next
      assume "\<bar>P - U\<bar> \<le> d"
      then have "P - U \<le> d" by (rule abs_le_D1)
      then show ?thesis by linarith
    qed
  qed
  have "P < 2 ^ 277"
  proof -
    have "c3 \<le> (2 ^ 24 - 6) * 2 ^ 253 * (3 / 2 ^ 24)"
      unfolding c3_def using S(2) by (intro mult_right_mono) simp_all
    then have u1: "U \<le> (2 ^ 24 - 6) * 2 ^ 253 + (2 ^ 24 - 6) * 2 ^ 253 * (3 / 2 ^ 24)"
      using U3(2) S(2) by linarith
    have "d = U * (1 / 2 ^ 24)" by (simp add: d_def)
    also have "\<dots> \<le> ((2 ^ 24 - 6) * 2 ^ 253 + (2 ^ 24 - 6) * 2 ^ 253 * (3 / 2 ^ 24)) * (1 / 2 ^ 24)"
      using u1 by (intro mult_right_mono) simp_all
    finally have "P \<le> ((2 ^ 24 - 6) * 2 ^ 253 + (2 ^ 24 - 6) * 2 ^ 253 * (3 / 2 ^ 24)) + 1 / 2
        + ((2 ^ 24 - 6) * 2 ^ 253 + (2 ^ 24 - 6) * 2 ^ 253 * (3 / 2 ^ 24)) * (1 / 2 ^ 24)"
      using Pup u1 by linarith
    also have "\<dots> < 2 ^ 277" by simp
    finally show ?thesis .
  qed
  then have "real_of_int Pi < real_of_int (2 ^ 277)" by (simp add: P_def)
  then have "Pi < 2 ^ 277" by (simp only: of_int_less_iff)
  then obtain n f where p: "round_float False (Ti * Ti) (- 298) = Finite False n f" "0 \<le> n"
      and o: "ord (Finite False n f) = Pi"
    using round_float_units [OF M] unfolding Pi_def by blast
  have vp: "valid (Finite False n f)" using valid_round_float [of False "Ti * Ti" "- 298"] p by simp
  have b: "S * (1 - 9 / 2 ^ 24) \<le> P \<and> P \<le> S * (1 + 9 / 2 ^ 24)"
  proof (cases "Si < 2 ^ 21")
    case True
    then have "real_of_int Si < real_of_int (2 ^ 21)" by (simp only: of_int_less_iff)
    then have s21: "S < 2 ^ 21" by (simp add: S_def)
    have c38: "c3 < 3 / 8" using s21 by (simp add: c3_def)
    have "U < 2 ^ 22" using U3(2) s21 c38 by simp
    then have "d < 1 / 2" by (simp add: d_def)
    then have "\<bar>P - U\<bar> \<le> 1 / 2" using G' by linarith
    then have "P - U \<le> 1 / 2" "- (P - U) \<le> 1 / 2" unfolding abs_le_iff by simp_all
    then have "P - S < 1" "- (P - S) < 1" using U3 c38 by linarith+
    then have "\<bar>P - S\<bar> < 1" unfolding abs_less_iff by simp
    then have "\<bar>real_of_int (Pi - Si)\<bar> < 1" by (simp add: P_def S_def)
    then have "\<bar>Pi - Si\<bar> < 1" by linarith
    then have "P = S" by (simp add: P_def S_def)
    then show ?thesis using S(1) by simp
  next
    case False
    then have "real_of_int (2 ^ 21) \<le> real_of_int Si" by (simp only: of_int_le_iff)
    then have s21: "2 ^ 21 \<le> S" by (simp add: S_def)
    define c4 where "c4 = S * (4 / 2 ^ 24)"
    have half: "1 / 2 \<le> c4" using s21 by (simp add: c4_def)
    have "c3 \<le> S" using S(1) by (simp add: c3_def)
    then have "U \<le> S * 2" using U3(2) by linarith
    then have "U \<le> S * 4" using S(1) by linarith
    then have "d \<le> c4" by (simp add: d_def c4_def)
    then have "\<bar>P - U\<bar> \<le> c4" using G' half by linarith
    then have "P - U \<le> c4" "- (P - U) \<le> c4" unfolding abs_le_iff by simp_all
    then have "S - c3 - c4 \<le> P" "P \<le> S + c3 + c4" using U3 by linarith+
    moreover have "S * (1 - 9 / 2 ^ 24) \<le> S - c3 - c4" "S + c3 + c4 \<le> S * (1 + 9 / 2 ^ 24)"
      using S(1) by (simp_all add: c3_def c4_def algebra_simps)
    ultimately show ?thesis by linarith
  qed
  have n: "0 < n"
  proof (rule ccontr)
    assume "\<not> 0 < n"
    then have "n = 0" using p(2) by simp
    then have "P = 0" unfolding P_def o [symmetric] by (simp add: ord_simps signed_def)
    then show False using b S(1) by simp
  qed
  show ?thesis using f p(1) vp n b unfolding P_def S_def o [symmetric] by auto
qed

lemma div_units:
  assumes vs: "valid (Finite False m e)" and m: "0 < m"
    and vp: "valid (Finite False n f)" and n: "0 < n"
    and lo: "real_of_int (ord (Finite False m e)) * (1 - 9 / 2 ^ 24)
               \<le> real_of_int (ord (Finite False n f))"
    and hi: "real_of_int (ord (Finite False n f))
               \<le> real_of_int (ord (Finite False m e)) * (1 + 9 / 2 ^ 24)"
  shows "\<exists>mr er. fdiv (Finite False m e) (Finite False n f) = Finite False mr er
      \<and> valid (Finite False mr er)
      \<and> 2 ^ 149 - 2 ^ 129 \<le> ord (Finite False mr er)
      \<and> ord (Finite False mr er) \<le> 2 ^ 149 + 2 ^ 129"
proof -
  define S where "S = real_of_int (ord (Finite False m e))"
  define P where "P = real_of_int (ord (Finite False n f))"
  obtain X where X: "0 < X"
    and fd: "fdiv (Finite False m e) (Finite False n f) = round_float False X (e - f - 51)"
    and d: "\<bar>exact_units X (e - f - 51) * P - S * 2 ^ 149\<bar> \<le> S * 2 ^ 149 / 2 ^ 27"
    using fdiv_form [OF vs vp m n] unfolding S_def P_def by blast
  define U where "U = exact_units X (e - f - 51)"
  define Ri where "Ri = rounded_units X (e - f - 51)"
  define R where "R = real_of_int Ri"
  have U: "0 < U" unfolding U_def using X by (rule exact_units_pos)
  have S: "1 \<le> S" unfolding S_def using vs m by (rule ord_positive_real)
  have "\<bar>U * P - S * 2 ^ 149\<bar> \<le> (S * 2 ^ 149) * (1 / 2 ^ 27)"
    using d unfolding U_def by simp
  then have UP: "(S * 2 ^ 149) * (1 - 1 / 2 ^ 27) \<le> U * P" "U * P \<le> (S * 2 ^ 149) * (1 + 1 / 2 ^ 27)"
    by (rule abs_rel_bounds)+
  have a: "U * (1 - 9 / 2 ^ 24) \<le> 2 ^ 149 * (1 + 1 / 2 ^ 27)"
  proof -
    have "S * (U * (1 - 9 / 2 ^ 24)) = U * (S * (1 - 9 / 2 ^ 24))" by simp
    also have "\<dots> \<le> U * P" using lo U unfolding S_def P_def by (intro mult_left_mono) simp_all
    also have "\<dots> \<le> (S * 2 ^ 149) * (1 + 1 / 2 ^ 27)" by (rule UP(2))
    also have "\<dots> = S * (2 ^ 149 * (1 + 1 / 2 ^ 27))" by simp
    finally show ?thesis using S by (simp only: mult_le_cancel_left_pos)
  qed
  have b: "2 ^ 149 * (1 - 1 / 2 ^ 27) \<le> U * (1 + 9 / 2 ^ 24)"
  proof -
    have "S * (2 ^ 149 * (1 - 1 / 2 ^ 27)) = (S * 2 ^ 149) * (1 - 1 / 2 ^ 27)" by simp
    also have "\<dots> \<le> U * P" by (rule UP(1))
    also have "\<dots> \<le> U * (S * (1 + 9 / 2 ^ 24))"
      using hi U unfolding S_def P_def by (intro mult_left_mono) simp_all
    also have "\<dots> = S * (U * (1 + 9 / 2 ^ 24))" by simp
    finally show ?thesis using S by (simp only: mult_le_cancel_left_pos)
  qed
  have U23: "2 ^ 23 \<le> U" using b by simp
  have "\<bar>R - U\<bar> \<le> U / 2 ^ 24"
    unfolding R_def Ri_def U_def using X U23 [unfolded U_def] by (rule round_units_relative)
  then have "\<bar>R - U\<bar> \<le> U * (1 / 2 ^ 24)" by simp
  then have R: "U * (1 - 1 / 2 ^ 24) \<le> R" "R \<le> U * (1 + 1 / 2 ^ 24)"
    by (rule abs_rel_bounds)+
  have Rhi: "R \<le> 2 ^ 149 + 2 ^ 129" using R(2) a by simp
  have Rlo: "2 ^ 149 - 2 ^ 129 \<le> R" using R(1) b by simp
  have "real_of_int Ri \<le> real_of_int (2 ^ 149 + 2 ^ 129)" using Rhi by (simp add: R_def)
  then have ihi: "Ri \<le> 2 ^ 149 + 2 ^ 129" by (simp only: of_int_le_iff)
  have "real_of_int (2 ^ 149 - 2 ^ 129) \<le> real_of_int Ri" using Rlo by (simp add: R_def)
  then have ilo: "2 ^ 149 - 2 ^ 129 \<le> Ri" by (simp only: of_int_le_iff)
  have "Ri < 2 ^ 277" using ihi by simp
  then obtain mr er where r: "round_float False X (e - f - 51) = Finite False mr er"
      and o: "ord (Finite False mr er) = Ri"
    using round_float_units [OF X] unfolding Ri_def by blast
  have "valid (Finite False mr er)" using valid_round_float [of False X "e - f - 51"] r by simp
  then show ?thesis using fd r o ilo ihi by auto
qed

lemma near_one_ord:
  assumes "valid (Finite False mr er)"
    and "2 ^ 149 - 2 ^ 129 \<le> ord (Finite False mr er)"
    and "ord (Finite False mr er) \<le> 2 ^ 149 + 2 ^ 129"
  shows "near_one (Finite False mr er)"
proof -
  have v: "valid (Finite False (2 ^ 24 - 16) (- 24))" "valid (Finite False (2 ^ 23 + 8) (- 23))"
    by (simp_all add: valid_def)
  have o: "ord (Finite False (2 ^ 24 - 16) (- 24)) = 2 ^ 149 - 2 ^ 129"
    "ord (Finite False (2 ^ 23 + 8) (- 23)) = 2 ^ 149 + 2 ^ 129"
    by (simp_all add: ord_simps signed_def)
  have "fle (Finite False (2 ^ 24 - 16) (- 24)) (Finite False mr er)"
    using fle_ord [OF v(1) assms(1)] assms(2) unfolding o by simp
  moreover have "fle (Finite False mr er) (Finite False (2 ^ 23 + 8) (- 23))"
    using fle_ord [OF assms(1) v(2)] assms(3) unfolding o by simp
  ultimately show ?thesis by (simp add: near_one_def)
qed

lemma top_floats:
  assumes v: "valid (Finite False m e)" and big: "\<not> ord (Finite False m e) \<le> (2 ^ 24 - 6) * 2 ^ 253"
  shows "e = 104 \<and> 2 ^ 24 - 6 < m \<and> m < 2 ^ 24"
proof -
  have m: "0 \<le> m" "m < 2 ^ 24" and e: "- 149 \<le> e" "e \<le> 104"
    using v by (simp_all add: valid_def)
  have e104: "e = 104"
  proof (rule ccontr)
    assume "e \<noteq> 104"
    then have "nat (e + 149) \<le> 252" using e by simp
    then have "(2::int) ^ nat (e + 149) \<le> 2 ^ 252" by (rule pow2_mono)
    then have "m * 2 ^ nat (e + 149) \<le> 2 ^ 24 * 2 ^ 252"
      using m by (intro mult_mono) simp_all
    then show False using big by (simp add: ord_simps signed_def)
  qed
  have "\<not> m * 2 ^ 253 \<le> (2 ^ 24 - 6) * 2 ^ 253"
    using big by (simp add: e104 ord_simps signed_def)
  then have "2 ^ 24 - 6 < m" by simp
  then show ?thesis using e104 m by simp
qed

lemma self_similarity_top:
  assumes "2 ^ 24 - 6 < m" "m < 2 ^ 24"
  shows "near_one (self_similarity (Finite False m 104))"
proof -
  have "m = 16777211 \<or> m = 16777212 \<or> m = 16777213 \<or> m = 16777214 \<or> m = 16777215"
    using assms by auto
  moreover have "near_one (self_similarity (Finite False 16777211 104))" by code_simp
  moreover have "near_one (self_similarity (Finite False 16777212 104))" by code_simp
  moreover have "near_one (self_similarity (Finite False 16777213 104))" by code_simp
  moreover have "near_one (self_similarity (Finite False 16777214 104))" by code_simp
  moreover have "near_one (self_similarity (Finite False 16777215 104))" by code_simp
  ultimately show ?thesis by auto
qed

lemma self_similarity_near_one:
  assumes v: "valid (Finite False m e)" and m: "0 < m"
  shows "near_one (self_similarity (Finite False m e))"
proof (cases "ord (Finite False m e) \<le> (2 ^ 24 - 6) * 2 ^ 253")
  case False
  then show ?thesis using top_floats [OF v False] self_similarity_top by auto
next
  case True
  obtain mt et where t: "fsqrt (Finite False m e) = Finite False mt et"
    and vt: "valid (Finite False mt et)" and mt: "0 < mt"
    and tl: "real_of_int (ord (Finite False m e)) * 2 ^ 149 * (1 - 3 / 2 ^ 24)
           \<le> real_of_int (ord (Finite False mt et)) * real_of_int (ord (Finite False mt et))"
    and th: "real_of_int (ord (Finite False mt et)) * real_of_int (ord (Finite False mt et))
           \<le> real_of_int (ord (Finite False m e)) * 2 ^ 149 * (1 + 3 / 2 ^ 24)"
    using sqrt_units [OF v m] by blast
  obtain n f where p: "fmul (Finite False mt et) (Finite False mt et) = Finite False n f"
    and vp: "valid (Finite False n f)" and n: "0 < n"
    and pl: "real_of_int (ord (Finite False m e)) * (1 - 9 / 2 ^ 24) \<le> real_of_int (ord (Finite False n f))"
    and ph: "real_of_int (ord (Finite False n f)) \<le> real_of_int (ord (Finite False m e)) * (1 + 9 / 2 ^ 24)"
    using square_units [OF vt mt ord_positive_bounds(1) [OF v m] True tl th] by blast
  obtain mr er where r: "fdiv (Finite False m e) (Finite False n f) = Finite False mr er"
    and vr: "valid (Finite False mr er)"
    and rl: "2 ^ 149 - 2 ^ 129 \<le> ord (Finite False mr er)"
    and rh: "ord (Finite False mr er) \<le> 2 ^ 149 + 2 ^ 129"
    using div_units [OF v m vp n pl ph] by blast
  have "self_similarity (Finite False m e) = Finite False mr er"
    by (simp only: self_similarity_def t p r)
  then show ?thesis using near_one_ord [OF vr rl rh] by simp
qed

lemma sign_positive_round: "sign_positive (round_float False M E)"
  using pack_cases [of False "round_mantissa M E" "round_exponent M E"]
  by (auto simp: round_float_def sign_positive_def)

lemma sign_positive_square: "sign_positive (fmul a a)"
  by (cases a) (simp_all add: sign_positive_round, simp_all add: sign_positive_def)

lemma sign_positive_fadd:
  assumes "valid x" "valid y" "sign_positive x" "sign_positive y"
  shows "sign_positive (fadd x y)"
proof (cases x; cases y)
  fix s m e t n f
  assume xy: "x = Finite s m e" "y = Finite t n f"
  then have s: "\<not> s" "\<not> t" and m: "0 \<le> m" "0 \<le> n"
    using assms by (simp_all add: sign_positive_def valid_def)
  define c where "c = signed s m * 2 ^ nat (e - min e f) + signed t n * 2 ^ nat (f - min e f)"
  have c: "0 \<le> c" using s m by (simp add: c_def signed_def)
  have "fadd x y = (if c = 0 then Finite (s \<and> t) 0 (- 149) else round_float (c < 0) \<bar>c\<bar> (min e f))"
    by (simp add: xy c_def Let_def)
  then show ?thesis using c s sign_positive_round [of "\<bar>c\<bar>" "min e f"]
    by (auto simp: sign_positive_def)
qed (use assms in \<open>auto simp: sign_positive_def\<close>)

lemma squared_norm_shape: "valid (squared_norm v) \<and> sign_positive (squared_norm v)"
proof -
  have "valid acc \<and> sign_positive acc \<Longrightarrow>
      valid (foldl sq_step acc v) \<and> sign_positive (foldl sq_step acc v)" for acc
  proof (induction v arbitrary: acc)
    case Nil
    then show ?case by simp
  next
    case (Cons a v)
    have "valid (sq_step acc a) \<and> sign_positive (sq_step acc a)"
      using Cons.prems
      by (simp add: sq_step_def valid_fadd sign_positive_fadd valid_fmul sign_positive_square)
    then show ?case using Cons.IH by simp
  qed
  moreover have "valid zero \<and> sign_positive zero"
    by (simp add: valid_zero) (simp add: zero_def sign_positive_def)
  ultimately show ?thesis unfolding squared_norm_def by blast
qed

lemma dot_product_self: "dot_product v v = squared_norm v"
proof -
  have "foldl dot_step acc (zip v v) = foldl sq_step acc v" for acc
    by (induction v arbitrary: acc) (simp_all add: dot_step_def sq_step_def)
  then show ?thesis by (simp add: dot_product_def squared_norm_def)
qed



section \<open>Cosine similarity\<close>

text \<open>
  C1. For vectors that hold at least \<open>sz\<close> elements and whose accumulated squared norms
  over the first \<open>sz\<close> elements are both different from zero, \<open>cosine_similarity\<close>
  returns the dot product divided by the product of the two Euclidean norms. The
  source's single loop with its three running sums ends with exactly the dot product and
  the two squared norms, each as a pass of its own would compute it.
\<close>

theorem cosine_similarity_formula:
  assumes "sz \<le> int (length v1)" and "sz \<le> int (length v2)"
    and "\<not> feq (squared_norm (take (nat sz) v1)) zero"
    and "\<not> feq (squared_norm (take (nat sz) v2)) zero"
  shows "cosine_loop v1 v2 sz 0 (zero, zero, zero) =
           Some (dot_product (take (nat sz) v1) (take (nat sz) v2),
                 squared_norm (take (nat sz) v1), squared_norm (take (nat sz) v2))
       \<and> cosine_similarity v1 v2 sz =
           Some (fdiv (dot_product (take (nat sz) v1) (take (nat sz) v2))
                   (fmul (euclidean_norm (take (nat sz) v1)) (euclidean_norm (take (nat sz) v2))))"
  using cosine_loop_prefix [OF assms(1,2)] cosine_similarity_prefix [OF assms(1,2)] assms(3,4)
  by simp

theorem cosine_similarity_formula_witness:
  "2 \<le> int (length [one, zero]) \<and> 2 \<le> int (length [one, one])
   \<and> \<not> feq (squared_norm (take (nat 2) [one, zero])) zero
   \<and> \<not> feq (squared_norm (take (nat 2) [one, one])) zero
   \<and> cosine_loop [one, zero] [one, one] 2 0 (zero, zero, zero) =
           Some (dot_product (take (nat 2) [one, zero]) (take (nat 2) [one, one]),
                 squared_norm (take (nat 2) [one, zero]), squared_norm (take (nat 2) [one, one]))
   \<and> cosine_similarity [one, zero] [one, one] 2 =
           Some (fdiv (dot_product (take (nat 2) [one, zero]) (take (nat 2) [one, one]))
                   (fmul (euclidean_norm (take (nat 2) [one, zero]))
                      (euclidean_norm (take (nat 2) [one, one]))))"
proof -
  have h1: "2 \<le> int (length [one, zero])" and h2: "2 \<le> int (length [one, one])"
    by simp_all
  have h3: "\<not> feq (squared_norm (take (nat 2) [one, zero])) zero" by code_simp
  have h4: "\<not> feq (squared_norm (take (nat 2) [one, one])) zero" by code_simp
  show ?thesis
    using cosine_similarity_formula [OF h1 h2 h3 h4] h1 h2 h3 h4 by blast
qed

text \<open>
  C2. When the accumulated squared norm of either vector compares equal to zero,
  \<open>cosine_similarity\<close> returns \<open>+0.0\<close> and never divides. In particular a vector whose
  first \<open>sz\<close> entries are all \<open>+0\<close> or \<open>-0\<close> has the squared norm \<open>+0\<close>, so the result is
  \<open>+0.0\<close> whatever the other vector holds, NaN and infinities included.
\<close>

theorem cosine_similarity_zero_norm:
  assumes "sz \<le> int (length v1)" and "sz \<le> int (length v2)"
  shows "(feq (squared_norm (take (nat sz) v1)) zero \<or> feq (squared_norm (take (nat sz) v2)) zero
            \<longrightarrow> cosine_similarity v1 v2 sz = Some zero)
       \<and> (list_all is_zero (take (nat sz) v1) \<or> list_all is_zero (take (nat sz) v2)
            \<longrightarrow> cosine_similarity v1 v2 sz = Some zero)"
proof -
  have a: "feq (squared_norm (take (nat sz) v1)) zero \<or> feq (squared_norm (take (nat sz) v2)) zero
      \<Longrightarrow> cosine_similarity v1 v2 sz = Some zero"
    using cosine_similarity_prefix [OF assms] by simp
  have "list_all is_zero (take (nat sz) v1) \<or> list_all is_zero (take (nat sz) v2)
      \<Longrightarrow> feq (squared_norm (take (nat sz) v1)) zero \<or> feq (squared_norm (take (nat sz) v2)) zero"
    using squared_norm_zeros feq_zero_zero by metis
  with a show ?thesis by blast
qed

theorem cosine_similarity_zero_norm_witness:
  "2 \<le> int (length [zero, Finite True 0 (- 149)]) \<and> 2 \<le> int (length [one, NaN])
   \<and> feq (squared_norm (take (nat 2) [zero, Finite True 0 (- 149)])) zero
   \<and> list_all is_zero (take (nat 2) [zero, Finite True 0 (- 149)])
   \<and> cosine_similarity [zero, Finite True 0 (- 149)] [one, NaN] 2 = Some zero"
proof -
  have h1: "2 \<le> int (length [zero, Finite True 0 (- 149)])" and h2: "2 \<le> int (length [one, NaN])"
    by simp_all
  have h3: "feq (squared_norm (take (nat 2) [zero, Finite True 0 (- 149)])) zero" by code_simp
  have h4: "list_all is_zero (take (nat 2) [zero, Finite True 0 (- 149)])" by code_simp
  show ?thesis
    using cosine_similarity_zero_norm [OF h1 h2] h1 h2 h3 h4 by blast
qed

text \<open>
  C5. \<open>cosine_similarity\<close> is symmetric in its two vectors: both calls return the same
  float, for every pair of buffers and every \<open>n\<close> (also when a read falls outside a
  buffer, where both calls are undefined). The same float means the same value, with NaN
  as one value; the comparison \<open>==\<close> of the source is false on a NaN result.
\<close>

theorem cosine_similarity_symmetric:
  "cosine_similarity v1 v2 n = cosine_similarity v2 v1 n"
proof (cases "cosine_loop v1 v2 n 0 (zero, zero, zero)")
  case None
  then show ?thesis
    using cosine_loop_swap [of v2 v1 n 0 zero zero zero]
    by (simp add: cosine_similarity_def)
next
  case (Some r)
  obtain d a b where r: "r = (d, a, b)" by (cases r)
  have "cosine_loop v2 v1 n 0 (zero, zero, zero) = Some (d, b, a)"
    using cosine_loop_swap [of v2 v1 n 0 zero zero zero] Some r by simp
  then show ?thesis using Some r
    by (auto simp: cosine_similarity_def fmul_commute [of "fsqrt a" "fsqrt b"])
qed

theorem cosine_similarity_symmetric_witness:
  "cosine_similarity [one, zero] [one, one] 2 = cosine_similarity [one, one] [one, zero] 2
   \<and> cosine_similarity [one, zero] [one, one] 2 = Some (Finite False 11863283 (- 24))"
proof -
  have "cosine_similarity [one, zero] [one, one] 2 = Some (Finite False 11863283 (- 24))"
    by code_simp
  then show ?thesis
    using cosine_similarity_symmetric [of "[one, zero]" "[one, one]" 2] by simp
qed

text \<open>
  C9, as stated, fails: a non-zero vector can have the squared norm \<open>0\<close> or infinity in
  single precision. For \<open>v = [2^-77]\<close> the square underflows to \<open>0\<close>, the zero-norm clamp
  fires and the result is \<open>0.0\<close>; for \<open>v = [2^73]\<close> the square overflows and the result is
  \<open>inf / (inf * inf)\<close>, a NaN.
\<close>

theorem cosine_similarity_self_counterexample:
  "\<not> is_zero (Finite False (2 ^ 23) (- 100))
   \<and> cosine_similarity [Finite False (2 ^ 23) (- 100)] [Finite False (2 ^ 23) (- 100)] 1 = Some zero
   \<and> \<not> near_one zero
   \<and> \<not> is_zero (Finite False (2 ^ 23) 50)
   \<and> cosine_similarity [Finite False (2 ^ 23) 50] [Finite False (2 ^ 23) 50] 1 = Some NaN
   \<and> \<not> near_one NaN"
  by code_simp

text \<open>
  C9, amended. For every vector whose accumulated squared norm over the first \<open>n\<close>
  entries is finite and not zero, \<open>cosine_similarity(v, v, n)\<close> lies between
  \<open>1 - 2^-20\<close> and \<open>1 + 2^-20\<close>: it is \<open>1.0\<close> within a tolerance below \<open>10^-6\<close>.
\<close>

theorem cosine_similarity_self:
  assumes "n \<le> int (length v)"
    and "is_finite (squared_norm (take (nat n) v))"
    and "\<not> is_zero (squared_norm (take (nat n) v))"
  shows "\<exists>r. cosine_similarity v v n = Some r \<and> near_one r
           \<and> r = self_similarity (squared_norm (take (nat n) v))"
proof -
  define s where "s = squared_norm (take (nat n) v)"
  obtain sg m e where se: "s = Finite sg m e"
    using assms(2) unfolding s_def [symmetric] by (cases s) (simp_all add: is_finite_def)
  have "valid s" "sign_positive s" unfolding s_def using squared_norm_shape by blast+
  then have v: "valid (Finite False m e)" and sg: "\<not> sg"
    by (simp_all add: se sign_positive_def)
  have "m \<noteq> 0" using assms(3) is_zero_signed_zero [of sg e] unfolding s_def [symmetric] se by auto
  then have m: "0 < m" using v by (simp add: valid_def)
  have nz: "\<not> feq s zero" using assms(3) by (simp add: is_zero_def s_def)
  have "cosine_similarity v v n = Some (self_similarity s)"
    using cosine_similarity_prefix [OF assms(1) assms(1)] nz
    by (simp add: s_def [symmetric] dot_product_self euclidean_norm_def self_similarity_def)
  moreover have "near_one (self_similarity s)"
    using self_similarity_near_one [OF v m] sg by (simp add: se)
  ultimately show ?thesis unfolding s_def by blast
qed

theorem cosine_similarity_self_witness:
  "2 \<le> int (length [one, Finite False 12582912 (- 22)])
   \<and> is_finite (squared_norm (take (nat 2) [one, Finite False 12582912 (- 22)]))
   \<and> \<not> is_zero (squared_norm (take (nat 2) [one, Finite False 12582912 (- 22)]))
   \<and> (\<exists>r. cosine_similarity [one, Finite False 12582912 (- 22)] [one, Finite False 12582912 (- 22)] 2 = Some r
         \<and> near_one r
         \<and> r = self_similarity (squared_norm (take (nat 2) [one, Finite False 12582912 (- 22)])))"
proof -
  have h1: "2 \<le> int (length [one, Finite False 12582912 (- 22)])" by simp
  have h2: "is_finite (squared_norm (take (nat 2) [one, Finite False 12582912 (- 22)]))"
    by code_simp
  have h3: "\<not> is_zero (squared_norm (take (nat 2) [one, Finite False 12582912 (- 22)]))"
    by code_simp
  show ?thesis using cosine_similarity_self [OF h1 h2 h3] h1 h2 h3 by blast
qed

section \<open>Influence score\<close>

text \<open>
  C4, as stated, fails: with a zero vector and an infinite centrality the similarity is
  \<open>0.0\<close> and \<open>0.0 * inf\<close> is NaN, not zero; and a similarity that is NaN (here from a
  squared norm that overflows) stays NaN when multiplied by the centrality \<open>0\<close>.
\<close>

theorem calculate_influence_tensor_counterexample:
  "list_all is_zero [zero]
   \<and> calculate_influence_tensor [zero] [one] 1 (Infty False) = Some NaN
   \<and> calculate_influence_tensor [Finite False (2 ^ 23) 50] [Finite False (2 ^ 23) 50] 1 zero = Some NaN"
  by code_simp

text \<open>
  C4, amended. For all vectors and every centrality \<open>c\<close>, \<open>calculate_influence_tensor\<close>
  is the cosine similarity multiplied by \<open>c\<close>. With \<open>c\<close> equal to zero the result is
  zero whenever the similarity is finite; with a vector that is zero on its first \<open>n\<close>
  entries the result is zero for every finite centrality.
\<close>

theorem calculate_influence_tensor_product:
  "calculate_influence_tensor v1 v2 n c =
     map_option (\<lambda>sim. fmul sim c) (cosine_similarity v1 v2 n)
 \<and> (\<forall>sim. cosine_similarity v1 v2 n = Some sim \<and> is_finite sim \<and> is_zero c
        \<longrightarrow> (\<exists>r. calculate_influence_tensor v1 v2 n c = Some r \<and> is_zero r))
 \<and> (n \<le> int (length v1) \<and> n \<le> int (length v2) \<and> is_finite c
      \<and> (list_all is_zero (take (nat n) v1) \<or> list_all is_zero (take (nat n) v2))
        \<longrightarrow> (\<exists>r. calculate_influence_tensor v1 v2 n c = Some r \<and> is_zero r))"
proof (intro conjI allI impI)
  show "calculate_influence_tensor v1 v2 n c =
      map_option (\<lambda>sim. fmul sim c) (cosine_similarity v1 v2 n)"
    by (simp add: calculate_influence_tensor_def split: option.splits)
next
  fix sim
  assume "cosine_similarity v1 v2 n = Some sim \<and> is_finite sim \<and> is_zero c"
  then show "\<exists>r. calculate_influence_tensor v1 v2 n c = Some r \<and> is_zero r"
    by (simp add: calculate_influence_tensor_def fmul_zero_is_zero)
next
  assume h: "n \<le> int (length v1) \<and> n \<le> int (length v2) \<and> is_finite c
      \<and> (list_all is_zero (take (nat n) v1) \<or> list_all is_zero (take (nat n) v2))"
  then have "feq (squared_norm (take (nat n) v1)) zero \<or> feq (squared_norm (take (nat n) v2)) zero"
    using squared_norm_zeros feq_zero_zero by metis
  then have "cosine_similarity v1 v2 n = Some zero"
    using cosine_similarity_prefix [of n v1 v2] h by simp
  moreover have "is_zero zero" by (simp add: is_zero_def feq_zero_zero)
  ultimately show "\<exists>r. calculate_influence_tensor v1 v2 n c = Some r \<and> is_zero r"
    using h by (simp add: calculate_influence_tensor_def fmul_zero_is_zero)
qed

theorem calculate_influence_tensor_product_witness:
  "cosine_similarity [one, zero] [one, zero] 2 = Some one \<and> is_finite one \<and> is_zero zero
   \<and> (\<exists>r. calculate_influence_tensor [one, zero] [one, zero] 2 zero = Some r \<and> is_zero r)
   \<and> 1 \<le> int (length [zero]) \<and> 1 \<le> int (length [one]) \<and> is_finite (Finite True 3 (- 149))
   \<and> list_all is_zero (take (nat 1) [zero])
   \<and> (\<exists>r. calculate_influence_tensor [zero] [one] 1 (Finite True 3 (- 149)) = Some r \<and> is_zero r)
   \<and> calculate_influence_tensor [one, zero] [one, zero] 2 (Finite False (2 ^ 23) (- 24)) =
        map_option (\<lambda>sim. fmul sim (Finite False (2 ^ 23) (- 24)))
          (cosine_similarity [one, zero] [one, zero] 2)"
proof -
  have h1: "cosine_similarity [one, zero] [one, zero] 2 = Some one" by code_simp
  have h2: "is_finite one" and h3: "is_zero zero" by code_simp+
  have h4: "1 \<le> int (length [zero])" and h5: "1 \<le> int (length [one])" by simp_all
  have h6: "is_finite (Finite True 3 (- 149))" by code_simp
  have h7: "list_all is_zero (take (nat 1) [zero])" by code_simp
  show ?thesis
    using calculate_influence_tensor_product [of "[one, zero]" "[one, zero]" 2 zero]
      calculate_influence_tensor_product [of "[zero]" "[one]" 1 "Finite True 3 (- 149)"]
      calculate_influence_tensor_product [of "[one, zero]" "[one, zero]" 2 "Finite False (2 ^ 23) (- 24)"]
      h1 h2 h3 h4 h5 h6 h7
    by blast
qed

section \<open>Cascading risk propagation\<close>

text \<open>
  C3. With a parent array that holds at least \<open>k\<close> elements, \<open>propagate_risk\<close> returns
  \<open>(1 - min(1, f * m))\<close> multiplied by the product of the first \<open>k\<close> parent
  probabilities. The clamped product is never NaN and never above \<open>1.0\<close>, so the local
  success term is never negative; below \<open>1.0\<close> the product \<open>f * m\<close> passes through
  \<open>std::min\<close> unchanged, however negative it is.
\<close>

theorem propagate_risk_formula:
  assumes "k \<le> int (length ps)"
  shows "propagate_risk f m ps k =
           Some (fmul (fsub one (std_min one (fmul f m))) (product (take (nat k) ps)))
       \<and> std_min one (fmul f m) \<noteq> NaN
       \<and> \<not> flt one (std_min one (fmul f m))
       \<and> fle zero (fsub one (std_min one (fmul f m)))
       \<and> (flt (fmul f m) one \<longrightarrow> std_min one (fmul f m) = fmul f m)"
  using propagate_risk_prefix [OF assms, of f m] std_min_one [of "fmul f m"]
    local_p_success_nonneg [of f m]
  by (simp add: local_p_success_def std_min_def)

theorem propagate_risk_formula_witness:
  "2 \<le> int (length [Finite False 15099494 (- 24), Finite False 13421773 (- 24)])
   \<and> flt (fmul (Finite True 13421773 (- 26)) one) one
   \<and> propagate_risk (Finite True 13421773 (- 26)) one
        [Finite False 15099494 (- 24), Finite False 13421773 (- 24)] 2 =
      Some (fmul (fsub one (std_min one (fmul (Finite True 13421773 (- 26)) one)))
              (product (take (nat 2) [Finite False 15099494 (- 24), Finite False 13421773 (- 24)])))
   \<and> std_min one (fmul (Finite True 13421773 (- 26)) one) = fmul (Finite True 13421773 (- 26)) one
   \<and> fle zero (fsub one (std_min one (fmul (Finite True 13421773 (- 26)) one)))"
proof -
  have h1: "2 \<le> int (length [Finite False 15099494 (- 24), Finite False 13421773 (- 24)])"
    by simp
  have h2: "flt (fmul (Finite True 13421773 (- 26)) one) one" by code_simp
  show ?thesis
    using propagate_risk_formula [OF h1, of "Finite True 13421773 (- 26)" one] h1 h2 by blast
qed

text \<open>
  C6. With an empty parent array and \<open>num_parents = 0\<close> the parent product is the
  multiplicative identity \<open>1.0\<close>, and \<open>propagate_risk\<close> returns the local term
  \<open>1 - min(1, f * m)\<close> itself: multiplying it by \<open>1.0\<close> changes nothing.
\<close>

theorem propagate_risk_no_parents:
  "product [] = one \<and> propagate_risk f m [] 0 = Some (fsub one (std_min one (fmul f m)))"
  using propagate_risk_nonpos [of 0 f m "[]"]
  by (simp add: product_def local_p_success_def)

theorem propagate_risk_no_parents_witness:
  "propagate_risk (Finite False (2 ^ 23) (- 22)) one [] 0 =
     Some (fsub one (std_min one (fmul (Finite False (2 ^ 23) (- 22)) one)))
   \<and> fsub one (std_min one (fmul (Finite False (2 ^ 23) (- 22)) one)) = zero"
proof -
  have "fsub one (std_min one (fmul (Finite False (2 ^ 23) (- 22)) one)) = zero" by code_simp
  then show ?thesis
    using propagate_risk_no_parents [of "Finite False (2 ^ 23) (- 22)" one] by blast
qed

text \<open>
  C7, as stated, fails for a multiplier that is infinite: \<open>0 * inf\<close> is NaN,
  \<open>std::min(1.0f, NaN)\<close> is \<open>1.0\<close>, the local term is \<open>0\<close>, and the result is \<open>0\<close>
  where the parent product is \<open>0.5\<close>.
\<close>

theorem propagate_risk_zero_failure_counterexample:
  "propagate_risk zero (Infty False) [Finite False (2 ^ 23) (- 24)] 1 = Some zero
   \<and> product [Finite False (2 ^ 23) (- 24)] = Finite False (2 ^ 23) (- 24)"
  by code_simp

text \<open>
  C7, amended. With a local failure probability of zero and a finite multiplier,
  \<open>propagate_risk\<close> returns the product of the first \<open>k\<close> parent probabilities.
\<close>

theorem propagate_risk_zero_failure:
  assumes "k \<le> int (length ps)" and "is_zero f" and "is_finite m"
  shows "propagate_risk f m ps k = Some (product (take (nat k) ps))"
  using propagate_risk_prefix [OF assms(1), of f m] local_p_success_zero [OF assms(2,3)]
  by (simp add: fmul_one_left valid_product)

theorem propagate_risk_zero_failure_witness:
  "1 \<le> int (length [Finite False (2 ^ 23) (- 24)]) \<and> is_zero zero
   \<and> is_finite (Finite True 12345 7)
   \<and> propagate_risk zero (Finite True 12345 7) [Finite False (2 ^ 23) (- 24)] 1 =
       Some (product (take (nat 1) [Finite False (2 ^ 23) (- 24)]))"
proof -
  have h1: "1 \<le> int (length [Finite False (2 ^ 23) (- 24)])" by simp
  have h2: "is_zero zero" by code_simp
  have h3: "is_finite (Finite True 12345 7)" by code_simp
  show ?thesis using propagate_risk_zero_failure [OF h1 h2 h3] h1 h2 h3 by blast
qed

text \<open>
  C8, as stated, fails when another parent entry is negative: with the parents
  \<open>[-1, 1]\<close> the result is \<open>-1\<close>, and lowering the second entry to \<open>0.5\<close> raises the
  result to \<open>-0.5\<close>.
\<close>

theorem propagate_risk_monotone_counterexample:
  "fle zero (Finite False (2 ^ 23) (- 24)) \<and> fle (Finite False (2 ^ 23) (- 24)) one
   \<and> propagate_risk zero zero [Finite True (2 ^ 23) (- 23), one] 2
        = Some (Finite True (2 ^ 23) (- 23))
   \<and> propagate_risk zero zero ([Finite True (2 ^ 23) (- 23), one][1 := Finite False (2 ^ 23) (- 24)]) 2
        = Some (Finite True (2 ^ 23) (- 24))
   \<and> flt (Finite True (2 ^ 23) (- 23)) (Finite True (2 ^ 23) (- 24))"
  by code_simp

text \<open>
  C8, amended. When every other parent entry among the first \<open>k\<close> is non-negative,
  lowering the entry at index \<open>i\<close> from \<open>a\<close> to \<open>b\<close> with \<open>0 \<le> b \<le> a\<close> never raises the
  result of \<open>propagate_risk\<close>: the result for \<open>b\<close> is not greater than the result for
  \<open>a\<close>, and it is less than or equal to it unless one of the two is NaN (which arises
  only from \<open>0 * inf\<close>).
\<close>

theorem propagate_risk_monotone:
  assumes "k \<le> int (length ps)" and "i < nat k"
    and "\<forall>j < nat k. j \<noteq> i \<longrightarrow> nonneg (ps ! j)"
    and "nonneg b" and "valid a" and "fle b a"
  shows "\<exists>ra rb. propagate_risk f m (ps[i := a]) k = Some ra
             \<and> propagate_risk f m (ps[i := b]) k = Some rb
             \<and> \<not> flt ra rb \<and> (ra = NaN \<or> rb = NaN \<or> fle rb ra)"
proof -
  define q where "q = product (take i ps)"
  define rest where "rest = drop (Suc i) (take (nat k) ps)"
  define L where "L = local_p_success f m"
  have nn: "list_all nonneg (take i ps)" "list_all nonneg rest"
    using others_nonneg [OF assms(1-3)] by (simp_all add: rest_def)
  have b: "b \<noteq> NaN" "valid b" "0 \<le> ord b" using assms(4) by (simp_all add: nonneg_iff)
  have a: "a \<noteq> NaN" using assms(6) by (cases b; cases a) simp_all
  have ba: "ord b \<le> ord a" using fle_ord [OF b(2) assms(5) b(1) a] assms(6) by simp
  then have na: "nonneg a" using a b assms(5) by (simp add: nonneg_iff)
  have "related q q"
    unfolding q_def product_def using related_one nn(1) by (rule related_foldl)
  then have "related (fmul q b) (fmul q a)" using assms(4) na ba by (rule related_left)
  then have r: "related (foldl fmul (fmul q b) rest) (foldl fmul (fmul q a) rest)"
    using nn(2) by (rule related_foldl)
  have "nonneg L"
    by (simp add: nonneg_def L_def valid_local_p_success local_p_success_nonneg)
  with r have "related (fmul (foldl fmul (fmul q b) rest) L) (fmul (foldl fmul (fmul q a) rest) L)"
    by (rule related_step)
  then have fin: "related (fmul L (foldl fmul (fmul q b) rest)) (fmul L (foldl fmul (fmul q a) rest))"
    by (simp add: fmul_commute [of L])
  have len: "k \<le> int (length (ps[i := a]))" "k \<le> int (length (ps[i := b]))"
    using assms(1) by simp_all
  have ra: "propagate_risk f m (ps[i := a]) k = Some (fmul L (foldl fmul (fmul q a) rest))"
    using propagate_risk_prefix [OF len(1), of f m] product_update [OF assms(1,2), of a]
    by (simp add: L_def q_def rest_def)
  have rb: "propagate_risk f m (ps[i := b]) k = Some (fmul L (foldl fmul (fmul q b) rest))"
    using propagate_risk_prefix [OF len(2), of f m] product_update [OF assms(1,2), of b]
    by (simp add: L_def q_def rest_def)
  show ?thesis using ra rb related_compare [OF fin] by blast
qed

theorem propagate_risk_monotone_witness:
  "2 \<le> int (length [Finite False (2 ^ 23) (- 24), one]) \<and> 1 < nat 2
   \<and> nonneg ([Finite False (2 ^ 23) (- 24), one] ! 0)
   \<and> nonneg (Finite False (2 ^ 23) (- 25)) \<and> valid one \<and> fle (Finite False (2 ^ 23) (- 25)) one
   \<and> (\<exists>ra rb. propagate_risk zero one ([Finite False (2 ^ 23) (- 24), one][1 := one]) 2 = Some ra
         \<and> propagate_risk zero one ([Finite False (2 ^ 23) (- 24), one][1 := Finite False (2 ^ 23) (- 25)]) 2 = Some rb
         \<and> \<not> flt ra rb \<and> (ra = NaN \<or> rb = NaN \<or> fle rb ra))"
proof -
  have h1: "2 \<le> int (length [Finite False (2 ^ 23) (- 24), one])" by simp
  have h2: "1 < nat 2" by simp
  have n0: "nonneg (Finite False (2 ^ 23) (- 24))" by code_simp
  have h3: "\<forall>j < nat 2. j \<noteq> 1 \<longrightarrow> nonneg ([Finite False (2 ^ 23) (- 24), one] ! j)"
  proof (intro allI impI)
    fix j :: nat
    assume "j < nat 2" "j \<noteq> 1"
    then have "j = 0" by simp
    then show "nonneg ([Finite False (2 ^ 23) (- 24), one] ! j)" using n0 by simp
  qed
  have h4: "nonneg (Finite False (2 ^ 23) (- 25))" by code_simp
  have h5: "valid one" by (rule valid_one)
  have h6: "fle (Finite False (2 ^ 23) (- 25)) one" by code_simp
  have h7: "nonneg ([Finite False (2 ^ 23) (- 24), one] ! 0)" using n0 by simp
  show ?thesis
    using propagate_risk_monotone [OF h1 h2 h3 h4 h5 h6, of zero one] h1 h2 h4 h5 h6 h7
    by blast
qed

section \<open>Lengths that are zero or negative\<close>

text \<open>
  C10. With \<open>sz \<le> 0\<close> the loop of \<open>cosine_similarity\<close> runs no iteration, the three sums
  stay \<open>0.0\<close> and the result is \<open>+0.0\<close>; with \<open>num_parents \<le> 0\<close> the parent product of
  \<open>propagate_risk\<close> stays \<open>1.0\<close> and the result is the local success term. Neither reads
  an element: the results hold for all buffers, the empty ones included, where any read
  would be out of range.
\<close>

theorem nonpositive_lengths:
  "(sz \<le> 0 \<longrightarrow> cosine_loop v1 v2 sz 0 (zero, zero, zero) = Some (zero, zero, zero)
                 \<and> cosine_similarity v1 v2 sz = Some zero
                 \<and> cosine_similarity [] [] sz = Some zero)
 \<and> (k \<le> 0 \<longrightarrow> parent_loop ps k 0 one = Some one
                 \<and> propagate_risk f m ps k = Some (fsub one (std_min one (fmul f m)))
                 \<and> propagate_risk f m [] k = Some (fsub one (std_min one (fmul f m))))"
  using cosine_loop_nonpos [of sz _ _ "(zero, zero, zero)"] parent_loop_nonpos [of k ps one]
    propagate_risk_nonpos [of k f m]
  by (simp add: cosine_similarity_def feq_zero_zero local_p_success_def)

theorem nonpositive_lengths_witness:
  "(- 3::int) \<le> 0 \<and> (0::int) \<le> 0
   \<and> cosine_similarity [one] [] (- 3) = Some zero
   \<and> propagate_risk one one [NaN] 0 = Some (fsub one (std_min one (fmul one one)))"
  using nonpositive_lengths [of "- 3" "[one]" "[]" 0 "[NaN]" one one] by simp

end
